theory Spec2Isabelle
  imports Main
begin

section \<open>Data model of \<^verbatim>\<open>src/js/game/systems/map.js\<close>\<close>

text \<open>
  Grid coordinates and cell types are JavaScript numbers; the model covers the integer
  ones (\<^typ>\<open>int\<close>).  The cell types are the numbers the source writes into the grid:
  0 empty, 1 tower, 2 obstacle, 3 player base, 4 enemy spawn; \<open>getCellType\<close> answers -1
  outside the grid.
\<close>

abbreviation (input) CELL_EMPTY :: int where "CELL_EMPTY \<equiv> 0"
abbreviation (input) CELL_TOWER :: int where "CELL_TOWER \<equiv> 1"
abbreviation (input) CELL_OBSTACLE :: int where "CELL_OBSTACLE \<equiv> 2"
abbreviation (input) CELL_BASE :: int where "CELL_BASE \<equiv> 3"
abbreviation (input) CELL_SPAWN :: int where "CELL_SPAWN \<equiv> 4"

text \<open>A call either returns or throws; the only \<^verbatim>\<open>throw\<close> of the class is in its constructor.\<close>

datatype 'a completion = Normal 'a | Throw string

text \<open>
  What the object sends out: the events given to \<^verbatim>\<open>eventEmitter.emit\<close>
  (\<^verbatim>\<open>'mapChanged'\<close> with \<open>x\<close>, \<open>y\<close>, \<open>type\<close>, and \<^verbatim>\<open>'mapStructureChanged'\<close>), kept in
  the order of emission, and the console lines, each kept as its fixed text and the
  numbers interpolated into it.
\<close>

datatype event = MapChanged int int int | MapStructureChanged

datatype console_entry =
    ConsoleLog string "int list"
  | ConsoleWarn string "int list"
  | ConsoleError string "int list"
  | ConsoleDebug string "int list"

text \<open>
  \<^verbatim>\<open>class PathNode\<close>: the constructor computes \<open>f = g + h\<close>.  A node is linked as a parent only
  after it has left the open set, and the search changes \<open>g\<close>, \<open>f\<close> and \<open>parent\<close> only of nodes
  it finds in the open set, so a parent reference is the parent's value at the moment of
  linking.
\<close>

datatype PathNode =
  PathNode (node_x: int) (node_y: int) (node_parent: "PathNode option")
           (node_g: int) (node_h: int) (node_f: int)

definition new_PathNode :: "int \<Rightarrow> int \<Rightarrow> PathNode option \<Rightarrow> int \<Rightarrow> int \<Rightarrow> PathNode" where
  "new_PathNode x y parent g h = PathNode x y parent g h (g + h)"

type_synonym path = "(int \<times> int) list"

text \<open>
  \<^verbatim>\<open>class BasicEnemy\<close>, as far as its path is concerned.  \<open>gridPos\<close> is the cell
  \<^verbatim>\<open>worldToGrid(this.x, this.y)\<close> of the enemy's position; a \<^verbatim>\<open>null\<close> path is \<open>None\<close>.
\<close>

record BasicEnemy =
  startGridX :: int
  startGridY :: int
  targetGridX :: int
  targetGridY :: int
  gridPos :: "int \<times> int"
  enemy_path :: "path option"
  currentPathIndex :: nat
  isActive :: bool

text \<open>
  \<^verbatim>\<open>class MapSystem\<close>.  \<open>grid\<close> is the array of rows (\<open>grid[y][x]\<close>).  The cache key
  \<^verbatim>\<open>`${startX},${startY}_${endX},${endY}`\<close> and the closed-set key \<^verbatim>\<open>`${x},${y}`\<close> are
  strings built from the coordinates; on integers they determine the coordinates, so the
  model keys the cache by the four numbers and the closed set by the pair.  A cache entry
  holds a path or \<^verbatim>\<open>null\<close> (\<open>None\<close>).  The \<open>entity\<close> references stored with the base and the
  spawns, the rendering context and the cell size are never read by the operations below.

  \<open>eventEmitter\<close> tells whether the object was given an emitter.  \<open>listeners\<close> is what that
  emitter holds under \<^verbatim>\<open>'mapStructureChanged'\<close>: the repository registers one kind of listener
  there, \<^verbatim>\<open>() => this.updateAllEnemyPaths()\<close> of an \<^verbatim>\<open>EnemyManager\<close>, kept here as the list of
  enemies of that manager.  Nothing in the repository listens to \<^verbatim>\<open>'mapChanged'\<close>.
\<close>

record MapSystem =
  gridWidth :: int
  gridHeight :: int
  grid :: "int list list"
  pathCache :: "(int \<times> int \<times> int \<times> int) \<rightharpoonup> path option"
  playerBase :: "(int \<times> int) option"
  enemySpawns :: "(int \<times> int) list"
  eventEmitter :: bool
  listeners :: "BasicEnemy list list"
  emitted :: "event list"
  console :: "console_entry list"

definition console_log :: "string \<Rightarrow> int list \<Rightarrow> MapSystem \<Rightarrow> MapSystem" where
  "console_log s args m = m\<lparr>console := console m @ [ConsoleLog s args]\<rparr>"

definition console_warn :: "string \<Rightarrow> int list \<Rightarrow> MapSystem \<Rightarrow> MapSystem" where
  "console_warn s args m = m\<lparr>console := console m @ [ConsoleWarn s args]\<rparr>"

definition console_error :: "string \<Rightarrow> int list \<Rightarrow> MapSystem \<Rightarrow> MapSystem" where
  "console_error s args m = m\<lparr>console := console m @ [ConsoleError s args]\<rparr>"

definition console_debug :: "string \<Rightarrow> int list \<Rightarrow> MapSystem \<Rightarrow> MapSystem" where
  "console_debug s args m = m\<lparr>console := console m @ [ConsoleDebug s args]\<rparr>"

section \<open>Construction and grid management\<close>

definition init_MapSystem :: "nat \<Rightarrow> nat \<Rightarrow> bool \<Rightarrow> MapSystem" where
  "init_MapSystem w h em =
     \<lparr> gridWidth = int w, gridHeight = int h,
       grid = replicate h (replicate w CELL_EMPTY),
       pathCache = Map.empty, playerBase = None, enemySpawns = [],
       eventEmitter = em, listeners = [], emitted = [],
       console = [ConsoleLog ''MapSystem initialized'' [int w, int h]] \<rparr>"

definition new_MapSystem :: "bool \<Rightarrow> nat \<Rightarrow> nat \<Rightarrow> bool \<Rightarrow> MapSystem completion" where
  "new_MapSystem ctx w h em =
     (if \<not> ctx then Throw ''MapSystem requires a rendering context (ctx).''
      else Normal (init_MapSystem w h em))"

definition isValidGridCoords :: "MapSystem \<Rightarrow> int \<Rightarrow> int \<Rightarrow> bool" where
  "isValidGridCoords m x y \<longleftrightarrow> x \<ge> 0 \<and> x < gridWidth m \<and> y \<ge> 0 \<and> y < gridHeight m"

definition cell :: "MapSystem \<Rightarrow> int \<Rightarrow> int \<Rightarrow> int" where
  "cell m x y = grid m ! nat y ! nat x"

definition getCellType :: "MapSystem \<Rightarrow> int \<Rightarrow> int \<Rightarrow> int" where
  "getCellType m x y = (if isValidGridCoords m x y then cell m x y else -1)"

definition write_cell :: "int \<Rightarrow> int \<Rightarrow> int \<Rightarrow> MapSystem \<Rightarrow> MapSystem" where
  "write_cell x y t m = m\<lparr>grid := (grid m)[nat y := (grid m ! nat y)[nat x := t]]\<rparr>"

definition invalidatePathCache :: "MapSystem \<Rightarrow> MapSystem" where
  "invalidatePathCache m = m\<lparr>pathCache := Map.empty\<rparr>"

definition isCellPassable :: "MapSystem \<Rightarrow> int \<Rightarrow> int \<Rightarrow> bool \<Rightarrow> bool" where
  "isCellPassable m x y forEnemies =
     (if \<not> isValidGridCoords m x y then False
      else let cellType = cell m x y in
        if forEnemies then cellType = CELL_EMPTY \<or> cellType = CELL_BASE \<or> cellType = CELL_SPAWN
        else cellType = CELL_EMPTY)"

section \<open>Pathfinding (A*)\<close>

definition heuristic :: "int \<times> int \<Rightarrow> int \<times> int \<Rightarrow> int" where
  "heuristic nodeA nodeB = \<bar>fst nodeA - fst nodeB\<bar> + \<bar>snd nodeA - snd nodeB\<bar>"

text \<open>The walk along the \<open>parent\<close> references, from the goal node back to the start node.\<close>

fun reconstruct :: "PathNode \<Rightarrow> path" where
  "reconstruct (PathNode x y p g h f) =
     (x, y) # (case p of None \<Rightarrow> [] | Some q \<Rightarrow> reconstruct q)"

definition node_pos :: "PathNode \<Rightarrow> int \<times> int" where
  "node_pos n = (node_x n, node_y n)"

text \<open>The assignment to the first node of the open set at the neighbour's position.\<close>

fun relax_first :: "int \<times> int \<Rightarrow> PathNode \<Rightarrow> int \<Rightarrow> PathNode list \<Rightarrow> PathNode list" where
  "relax_first pos cur gScore [] = []"
| "relax_first pos cur gScore (n # ns) =
     (if node_pos n = pos
      then PathNode (node_x n) (node_y n) (Some cur) gScore (node_h n) (gScore + node_h n) # ns
      else n # relax_first pos cur gScore ns)"

text \<open>The body of \<^verbatim>\<open>for (const neighborPos of neighbors)\<close>.\<close>

definition visit_neighbor ::
  "MapSystem \<Rightarrow> int \<Rightarrow> int \<Rightarrow> PathNode \<Rightarrow> (int \<times> int) set \<Rightarrow> int \<times> int \<Rightarrow> PathNode list \<Rightarrow> PathNode list"
where
  "visit_neighbor m endX endY currentNode closedSet neighborPos openSet =
     (if \<not> isCellPassable m (fst neighborPos) (snd neighborPos) True then openSet
      else if neighborPos \<in> closedSet then openSet
      else let gScore = node_g currentNode + 1 in
        case find (\<lambda>n. node_pos n = neighborPos) openSet of
          None \<Rightarrow> openSet @ [new_PathNode (fst neighborPos) (snd neighborPos) (Some currentNode)
                                gScore (heuristic neighborPos (endX, endY))]
        | Some neighborNode \<Rightarrow>
            if gScore < node_g neighborNode then relax_first neighborPos currentNode gScore openSet
            else openSet)"

definition neighbors :: "PathNode \<Rightarrow> (int \<times> int) list" where
  "neighbors currentNode =
     [(node_x currentNode, node_y currentNode - 1),
      (node_x currentNode, node_y currentNode + 1),
      (node_x currentNode - 1, node_y currentNode),
      (node_x currentNode + 1, node_y currentNode)]"

text \<open>
  One round of \<^verbatim>\<open>while (openSet.length > 0)\<close> after the stable sort by \<open>f\<close> and the \<open>shift\<close>:
  the new open set and closed set.
\<close>

definition expand ::
  "MapSystem \<Rightarrow> int \<Rightarrow> int \<Rightarrow> PathNode \<Rightarrow> PathNode list \<Rightarrow> (int \<times> int) set
     \<Rightarrow> PathNode list \<times> (int \<times> int) set"
where
  "expand m endX endY currentNode rest closedSet =
     (let closedSet' = insert (node_pos currentNode) closedSet
      in (fold (visit_neighbor m endX endY currentNode closedSet') (neighbors currentNode) rest,
          closedSet'))"

text \<open>The measure of the search loop: cells still unseen count twice, open nodes once.\<close>

definition cells :: "MapSystem \<Rightarrow> (int \<times> int) set" where
  "cells m = {0 ..< gridWidth m} \<times> {0 ..< gridHeight m}"

definition unseen :: "MapSystem \<Rightarrow> PathNode list \<Rightarrow> (int \<times> int) set \<Rightarrow> (int \<times> int) set" where
  "unseen m openSet closedSet = cells m - closedSet - node_pos ` set openSet"

definition search_measure :: "MapSystem \<Rightarrow> PathNode list \<Rightarrow> (int \<times> int) set \<Rightarrow> nat" where
  "search_measure m openSet closedSet = 2 * card (unseen m openSet closedSet) + length openSet"

text \<open>
  The \<^verbatim>\<open>while\<close> loop of \<open>findPath\<close>.  \<^verbatim>\<open>openSet.sort((a, b) => a.f - b.f)\<close> is a
  stable sort by \<open>f\<close>, kept in the array; \<open>shift\<close> takes its first node.  The result is the
  path, or \<open>None\<close> when the open set runs empty.
\<close>

function findPath_loop ::
  "MapSystem \<Rightarrow> int \<Rightarrow> int \<Rightarrow> PathNode list \<Rightarrow> (int \<times> int) set \<Rightarrow> path option"
where
  "findPath_loop m endX endY openSet closedSet =
     (case sort_key node_f openSet of
        [] \<Rightarrow> None
      | currentNode # rest \<Rightarrow>
          if node_x currentNode = endX \<and> node_y currentNode = endY
          then Some (rev (reconstruct currentNode))
          else findPath_loop m endX endY
                 (fst (expand m endX endY currentNode rest closedSet))
                 (snd (expand m endX endY currentNode rest closedSet)))"
  by pat_completeness auto

definition search :: "MapSystem \<Rightarrow> int \<Rightarrow> int \<Rightarrow> int \<Rightarrow> int \<Rightarrow> path option" where
  "search m startX startY endX endY =
     findPath_loop m endX endY
       [new_PathNode startX startY None 0 (heuristic (startX, startY) (endX, endY))] {}"

definition findPath ::
  "MapSystem \<Rightarrow> int \<Rightarrow> int \<Rightarrow> int \<Rightarrow> int \<Rightarrow> bool \<Rightarrow> path option \<times> MapSystem"
where
  "findPath m startX startY endX endY forceRecalculate =
     (let cacheKey = (startX, startY, endX, endY) in
      case (if forceRecalculate then None else pathCache m cacheKey) of
        Some cached \<Rightarrow> (cached, m)
      | None \<Rightarrow>
          (let result = search m startX startY endX endY
           in (result, m\<lparr>pathCache := (pathCache m)(cacheKey \<mapsto> result)\<rparr>)))"

section \<open>The emitter and its listeners\<close>

text \<open>\<^verbatim>\<open>!this.path || this.path.length === 0\<close>\<close>

definition no_path :: "path option \<Rightarrow> bool" where
  "no_path p = (case p of None \<Rightarrow> True | Some q \<Rightarrow> length q = 0)"

text \<open>The end of \<open>recalculatePath\<close>, reached with a path that is not empty.\<close>

definition reset_path_index :: "BasicEnemy \<Rightarrow> MapSystem \<Rightarrow> BasicEnemy \<times> MapSystem" where
  "reset_path_index e m =
     (let p = (case enemy_path e of None \<Rightarrow> [] | Some q \<Rightarrow> q);
          e0 = e\<lparr>currentPathIndex := 0\<rparr>
      in if length p > 1 then (e0\<lparr>currentPathIndex := 1\<rparr>, m)
         else if length p = 1 \<and> (fst (p ! 0) \<noteq> targetGridX e \<or> snd (p ! 0) \<noteq> targetGridY e)
         then (e0, console_warn ''BasicEnemy: Path is only the start node and it's not the target. Stuck.'' [] m)
         else (e0, m))"

definition recalculatePath :: "BasicEnemy \<Rightarrow> MapSystem \<Rightarrow> BasicEnemy \<times> MapSystem" where
  "recalculatePath e m =
     (case findPath m (startGridX e) (startGridY e) (targetGridX e) (targetGridY e) False of
        (p1, m1) \<Rightarrow>
          if no_path p1
          then (case findPath (console_warn ''BasicEnemy: No path found or path is empty.'' [] m1)
                       (fst (gridPos e)) (snd (gridPos e)) (targetGridX e) (targetGridY e) False of
                  (p2, m2) \<Rightarrow>
                    if no_path p2
                    then (e\<lparr>enemy_path := p2, isActive := False\<rparr>,
                          console_error ''BasicEnemy: Still no path from current location. Enemy is stuck.''
                            [] m2)
                    else reset_path_index (e\<lparr>enemy_path := p2\<rparr>) m2)
          else reset_path_index (e\<lparr>enemy_path := p1\<rparr>) m1)"

definition onMapStructureChanged :: "BasicEnemy \<Rightarrow> MapSystem \<Rightarrow> BasicEnemy \<times> MapSystem" where
  "onMapStructureChanged e m =
     recalculatePath (e\<lparr>startGridX := fst (gridPos e), startGridY := snd (gridPos e)\<rparr>) m"

text \<open>\<^verbatim>\<open>for (const enemy of this.enemies)\<close> in \<open>updateAllEnemyPaths\<close>.\<close>

fun update_enemies :: "BasicEnemy list \<Rightarrow> MapSystem \<Rightarrow> BasicEnemy list \<times> MapSystem" where
  "update_enemies [] m = ([], m)"
| "update_enemies (enemy # enemies) m =
     (if isActive enemy
      then (case onMapStructureChanged enemy m of
              (enemy', m') \<Rightarrow>
                (case update_enemies enemies m' of (enemies', m'') \<Rightarrow> (enemy' # enemies', m'')))
      else (case update_enemies enemies m of (enemies', m') \<Rightarrow> (enemy # enemies', m')))"

definition updateAllEnemyPaths :: "BasicEnemy list \<Rightarrow> MapSystem \<Rightarrow> BasicEnemy list \<times> MapSystem" where
  "updateAllEnemyPaths enemies m =
     update_enemies enemies
       (console_log ''EnemyManager: Updating paths for all active enemies due to map change.'' [] m)"

text \<open>
  \<^verbatim>\<open>this.events[eventName].forEach(listener => ...)\<close> of \<^verbatim>\<open>EventEmitter.emit\<close>: the listeners
  run one after the other, before \<open>emit\<close> returns.  None of them throws, so the
  \<^verbatim>\<open>catch\<close> is never entered.
\<close>

fun run_listeners :: "BasicEnemy list list \<Rightarrow> MapSystem \<Rightarrow> BasicEnemy list list \<times> MapSystem" where
  "run_listeners [] m = ([], m)"
| "run_listeners (l # ls) m =
     (case updateAllEnemyPaths l m of
        (l', m') \<Rightarrow> (case run_listeners ls m' of (ls', m'') \<Rightarrow> (l' # ls', m'')))"

text \<open>\<^verbatim>\<open>if (this.eventEmitter) this.eventEmitter.emit(...)\<close>\<close>

definition emit :: "event \<Rightarrow> MapSystem \<Rightarrow> MapSystem" where
  "emit e m =
     (if eventEmitter m
      then (case e of
              MapChanged x y t \<Rightarrow> m\<lparr>emitted := emitted m @ [e]\<rparr>
            | MapStructureChanged \<Rightarrow>
                (case run_listeners (listeners m) (m\<lparr>emitted := emitted m @ [e]\<rparr>) of
                   (ls, m') \<Rightarrow> m'\<lparr>listeners := ls\<rparr>))
      else m)"

section \<open>Committed writes\<close>

definition setCellType :: "MapSystem \<Rightarrow> int \<Rightarrow> int \<Rightarrow> int \<Rightarrow> MapSystem" where
  "setCellType m x y t =
     (if isValidGridCoords m x y
      then emit (MapChanged x y t) (invalidatePathCache (write_cell x y t m))
      else m)"

section \<open>Terrain elements\<close>

definition setPlayerBase :: "MapSystem \<Rightarrow> int \<Rightarrow> int \<Rightarrow> unit completion \<times> MapSystem" where
  "setPlayerBase m gridX gridY =
     (if isValidGridCoords m gridX gridY
      then (Normal (),
            console_log ''Player base set at'' [gridX, gridY]
              (setCellType (m\<lparr>playerBase := Some (gridX, gridY)\<rparr>) gridX gridY CELL_BASE))
      else (Normal (), console_error ''Invalid coordinates for player base.'' [] m))"

definition addEnemySpawn :: "MapSystem \<Rightarrow> int \<Rightarrow> int \<Rightarrow> unit completion \<times> MapSystem" where
  "addEnemySpawn m gridX gridY =
     (if isValidGridCoords m gridX gridY
      then (Normal (),
            console_log ''Enemy spawn added at'' [gridX, gridY]
              (setCellType (m\<lparr>enemySpawns := enemySpawns m @ [(gridX, gridY)]\<rparr>) gridX gridY CELL_SPAWN))
      else (Normal (), console_error ''Invalid coordinates for enemy spawn.'' [] m))"

definition addObstacle :: "MapSystem \<Rightarrow> int \<Rightarrow> int \<Rightarrow> bool completion \<times> MapSystem" where
  "addObstacle m gridX gridY =
     (if isValidGridCoords m gridX gridY \<and> cell m gridX gridY = CELL_EMPTY
      then (Normal True,
            console_log ''Obstacle added at'' [gridX, gridY] (setCellType m gridX gridY CELL_OBSTACLE))
      else (Normal False, m))"

section \<open>Tower placement\<close>

text \<open>
  The loop \<^verbatim>\<open>for (const spawn of this.enemySpawns)\<close> of \<open>canPlaceTower\<close>: the value of
  \<open>allPathsValid\<close> and the object after the calls of \<open>findPath\<close>.
\<close>

fun check_spawns :: "MapSystem \<Rightarrow> int \<times> int \<Rightarrow> (int \<times> int) list \<Rightarrow> bool \<times> MapSystem" where
  "check_spawns m base [] = (True, m)"
| "check_spawns m base (spawn # spawns) =
     (case findPath m (fst spawn) (snd spawn) (fst base) (snd base) True of
        (None, m') \<Rightarrow> (False, m')
      | (Some p, m') \<Rightarrow> if length p = 0 then (False, m') else check_spawns m' base spawns)"

definition canPlaceTower :: "MapSystem \<Rightarrow> int \<Rightarrow> int \<Rightarrow> bool \<times> MapSystem" where
  "canPlaceTower m gridX gridY =
     (if \<not> isCellPassable m gridX gridY False
      then (False, console_debug ''Tower placement denied: Cell not empty''
                     [gridX, gridY, getCellType m gridX gridY] m)
      else
        let originalCellType = cell m gridX gridY;
            m1 = write_cell gridX gridY CELL_TOWER m
        in case playerBase m1 of
             None \<Rightarrow>
               (False, write_cell gridX gridY originalCellType
                         (console_error ''Player base not set, cannot check tower placement.'' [] m1))
           | Some base \<Rightarrow>
               (case check_spawns m1 base (enemySpawns m1) of
                  (allPathsValid, m2) \<Rightarrow>
                    let m3 = write_cell gridX gridY originalCellType m2
                    in (allPathsValid,
                        if \<not> allPathsValid
                        then console_debug ''Tower placement denied: Blocks path.'' [gridX, gridY] m3
                        else m3)))"

definition placeTower :: "MapSystem \<Rightarrow> int \<Rightarrow> int \<Rightarrow> bool \<times> MapSystem" where
  "placeTower m gridX gridY =
     (case canPlaceTower m gridX gridY of
        (True, m1) \<Rightarrow>
          (True, emit MapStructureChanged
                   (invalidatePathCache
                      (console_log ''Tower placed at'' [gridX, gridY]
                         (setCellType m1 gridX gridY CELL_TOWER))))
      | (False, m1) \<Rightarrow> (False, m1))"

definition removeTower :: "MapSystem \<Rightarrow> int \<Rightarrow> int \<Rightarrow> bool \<times> MapSystem" where
  "removeTower m gridX gridY =
     (if isValidGridCoords m gridX gridY \<and> cell m gridX gridY = CELL_TOWER
      then (True, emit MapStructureChanged
                    (invalidatePathCache (setCellType m gridX gridY CELL_EMPTY)))
      else (False, m))"

section \<open>Sequences of calls\<close>

text \<open>
  The calls a client can make on the object, and the object after a sequence of them,
  starting from a freshly constructed one.  \<open>Collaborators\<close> stands for whatever the other
  classes do between two calls: listeners are registered, enemies are added, move, die.
\<close>

datatype call =
    RegisterBase int int
  | RegisterSpawn int int
  | RegisterObstacle int int
  | PlaceTower int int
  | RemoveTower int int
  | SetCellState int int int
  | CanPlaceTower int int
  | FindPath int int int int bool
  | Collaborators "BasicEnemy list list"

fun perform :: "call \<Rightarrow> MapSystem \<Rightarrow> MapSystem" where
  "perform (RegisterBase x y) m = snd (setPlayerBase m x y)"
| "perform (RegisterSpawn x y) m = snd (addEnemySpawn m x y)"
| "perform (RegisterObstacle x y) m = snd (addObstacle m x y)"
| "perform (PlaceTower x y) m = snd (placeTower m x y)"
| "perform (RemoveTower x y) m = snd (removeTower m x y)"
| "perform (SetCellState x y t) m = setCellType m x y t"
| "perform (CanPlaceTower x y) m = snd (canPlaceTower m x y)"
| "perform (FindPath sx sy ex ey force) m = snd (findPath m sx sy ex ey force)"
| "perform (Collaborators ls) m = m\<lparr>listeners := ls\<rparr>"

definition run :: "call list \<Rightarrow> MapSystem \<Rightarrow> MapSystem" where
  "run calls m = fold perform calls m"

text \<open>
  The map of the blocking scenario: 3 by 3, base at (2, 1), one spawn at (0, 1),
  obstacles at (1, 0) and (1, 2), so that (1, 1) is the only way from the spawn to the base.
\<close>

definition corridor_scenario :: "bool \<Rightarrow> MapSystem" where
  "corridor_scenario em =
     run [RegisterBase 2 1, RegisterSpawn 0 1, RegisterObstacle 1 0, RegisterObstacle 1 2]
       (init_MapSystem 3 3 em)"

text \<open>
  An all-empty 3 by 3 map on which a placement check has run: base and spawn are registered
  and their two cells are then written back to empty with \<open>setCellType\<close>, and
  \<open>canPlaceTower(1, 1)\<close> is called.
\<close>

definition emptied_scenario :: "bool \<Rightarrow> MapSystem" where
  "emptied_scenario em =
     run [RegisterBase 2 1, RegisterSpawn 0 1, SetCellState 2 1 CELL_EMPTY, SetCellState 0 1 CELL_EMPTY,
          CanPlaceTower 1 1]
       (init_MapSystem 3 3 em)"


section \<open>Observations on the grid\<close>

text \<open>
  The grid has the shape the constructor gave it when it has \<open>gridHeight\<close> rows of
  \<open>gridWidth\<close> cells; every read and write of the class is then inside the arrays.
\<close>

definition shape :: "MapSystem \<Rightarrow> int \<times> int \<times> nat list" where
  "shape m = (gridWidth m, gridHeight m, map length (grid m))"

definition wf_grid :: "MapSystem \<Rightarrow> bool" where
  "wf_grid m \<longleftrightarrow> map length (grid m) = replicate (nat (gridHeight m)) (nat (gridWidth m))"

text \<open>The number of cells of the grid that hold the cell type \<open>t\<close>.\<close>

definition count_cells :: "MapSystem \<Rightarrow> int \<Rightarrow> nat" where
  "count_cells m t = sum_list (map (\<lambda>row. count_list row t) (grid m))"

text \<open>The calls that write the cell type 3 (player base) when their coordinates are valid.\<close>

fun writes_base :: "call \<Rightarrow> bool" where
  "writes_base (RegisterBase x y) = True"
| "writes_base (SetCellState x y t) = (t = CELL_BASE)"
| "writes_base c = False"

definition base_writes :: "call list \<Rightarrow> nat" where
  "base_writes calls = length (filter writes_base calls)"



text \<open>
  A property of the object that the listeners cannot break: it is kept by a \<open>findPath\<close>
  that may read the cache, and does not depend on the console, the events sent or the
  enemies.
\<close>

definition listener_stable :: "(MapSystem \<Rightarrow> bool) \<Rightarrow> bool" where
  "listener_stable Q \<longleftrightarrow>
     (\<forall>m sx sy ex ey. Q m \<longrightarrow> Q (snd (findPath m sx sy ex ey False)))
     \<and> (\<forall>m c. Q (m\<lparr>console := c\<rparr>) = Q m)
     \<and> (\<forall>m l. Q (m\<lparr>listeners := l\<rparr>) = Q m)
     \<and> (\<forall>m l. Q (m\<lparr>emitted := l\<rparr>) = Q m)"


text \<open>
  A cache in which every entry for equal start and end is the one-cell path: what a search
  from a cell to itself returns.
\<close>

definition self_entries_ok :: "((int \<times> int \<times> int \<times> int) \<rightharpoonup> path option) \<Rightarrow> bool" where
  "self_entries_ok c \<longleftrightarrow> (\<forall>x y r. c (x, y, x, y) = Some r \<longrightarrow> r = Some [(x, y)])"

section \<open>The invariant of the search on a grid of empty cells\<close>

text \<open>
  \<open>S\<close> is the start and \<open>E\<close> the goal.  All cells are empty; a cell lies on a shortest
  way when its distances to \<open>S\<close> and to \<open>E\<close> add up to the distance from \<open>S\<close> to \<open>E\<close>.
  A node of the open set is in order when \<open>h\<close> is its distance to the goal, \<open>f = g + h\<close>,
  \<open>g\<close> is at least its distance from the start, and its chain of parents has \<open>g + 1\<close>
  cells.  A cell is reached when the open set has a node for it whose \<open>g\<close> is exactly its
  distance from the start.  The invariant: every open node is in order; every closed cell
  lies on a shortest way and is not the goal; every cell on a shortest way one step after a
  closed cell is closed or reached; and the start is closed or reached.
\<close>

definition all_empty :: "MapSystem \<Rightarrow> bool" where
  "all_empty m \<longleftrightarrow> (\<forall>row \<in> set (grid m). \<forall>c \<in> set row. c = CELL_EMPTY)"

definition adjacent :: "int \<times> int \<Rightarrow> (int \<times> int) set" where
  "adjacent c = {(fst c, snd c - 1), (fst c, snd c + 1), (fst c - 1, snd c), (fst c + 1, snd c)}"

definition on_shortest :: "int \<times> int \<Rightarrow> int \<times> int \<Rightarrow> int \<times> int \<Rightarrow> bool" where
  "on_shortest S E c \<longleftrightarrow> heuristic S c + heuristic c E = heuristic S E"

definition node_ok :: "int \<times> int \<Rightarrow> int \<times> int \<Rightarrow> PathNode \<Rightarrow> bool" where
  "node_ok S E n \<longleftrightarrow>
     node_h n = heuristic (node_pos n) E \<and> node_f n = node_g n + node_h n
     \<and> heuristic S (node_pos n) \<le> node_g n \<and> length (reconstruct n) = nat (node_g n) + 1"

definition reached :: "int \<times> int \<Rightarrow> PathNode list \<Rightarrow> int \<times> int \<Rightarrow> bool" where
  "reached S openSet c \<longleftrightarrow> (\<exists>n \<in> set openSet. node_pos n = c \<and> node_g n = heuristic S c)"

definition search_inv ::
  "int \<times> int \<Rightarrow> int \<times> int \<Rightarrow> PathNode list \<Rightarrow> (int \<times> int) set \<Rightarrow> bool" where
  "search_inv S E openSet closedSet \<longleftrightarrow>
     (\<forall>n \<in> set openSet. node_ok S E n)
     \<and> (\<forall>c \<in> closedSet. on_shortest S E c \<and> c \<noteq> E)
     \<and> (\<forall>c \<in> closedSet. \<forall>c' \<in> adjacent c.
            on_shortest S E c' \<and> heuristic S c' = heuristic S c + 1
              \<longrightarrow> c' \<in> closedSet \<or> reached S openSet c')
     \<and> (S \<in> closedSet \<or> reached S openSet S)"

section \<open>Termination of the search\<close>

lemma finite_cells: "finite (cells m)"
  by (simp add: cells_def)

lemma map_pos_relax_first: "map node_pos (relax_first pos cur gs ns) = map node_pos ns"
  by (induction ns) (simp_all add: node_pos_def)

lemma set_pos_relax_first: "node_pos ` set (relax_first pos cur gs ns) = node_pos ` set ns"
  using map_pos_relax_first [of pos cur gs ns] by (metis set_map)

lemma length_relax_first: "length (relax_first pos cur gs ns) = length ns"
  using map_pos_relax_first [of pos cur gs ns] by (metis length_map)

lemma find_None_pos: "find (\<lambda>n. node_pos n = p) ns = None \<Longrightarrow> p \<notin> node_pos ` set ns"
  by (auto simp: find_None_iff)

lemma passable_in_cells: "isCellPassable m x y b \<Longrightarrow> (x, y) \<in> cells m"
  by (auto simp: isCellPassable_def isValidGridCoords_def cells_def split: if_splits)

lemma finite_unseen: "finite (unseen m ns cl)"
  by (simp add: unseen_def finite_cells)

lemma search_measure_append:
  assumes "node_pos n \<in> cells m" "node_pos n \<notin> cl" "node_pos n \<notin> node_pos ` set ns"
  shows "search_measure m (ns @ [n]) cl < search_measure m ns cl"
proof -
  have in_u: "node_pos n \<in> unseen m ns cl"
    using assms by (simp add: unseen_def)
  have eq: "unseen m (ns @ [n]) cl = unseen m ns cl - {node_pos n}"
    by (auto simp: unseen_def)
  have "card (unseen m ns cl - {node_pos n}) < card (unseen m ns cl)"
    using in_u finite_unseen by (meson card_Diff1_less)
  then show ?thesis
    by (simp add: search_measure_def eq)
qed

lemma search_measure_visit:
  "search_measure m (visit_neighbor m ex ey cur cl p ns) cl \<le> search_measure m ns cl"
proof (cases "isCellPassable m (fst p) (snd p) True \<and> p \<notin> cl")
  case False
  then show ?thesis by (auto simp: visit_neighbor_def)
next
  case True
  show ?thesis
  proof (cases "find (\<lambda>n. node_pos n = p) ns")
    case None
    let ?n = "new_PathNode (fst p) (snd p) (Some cur) (node_g cur + 1) (heuristic p (ex, ey))"
    have pos: "node_pos ?n = p" by (simp add: node_pos_def new_PathNode_def)
    have "search_measure m (ns @ [?n]) cl < search_measure m ns cl"
    proof (rule search_measure_append)
      show "node_pos ?n \<in> cells m" using True passable_in_cells [of m "fst p" "snd p" True] pos by simp
      show "node_pos ?n \<notin> cl" using True pos by simp
      show "node_pos ?n \<notin> node_pos ` set ns" using find_None_pos [OF None] pos by simp
    qed
    then show ?thesis using True None by (simp add: visit_neighbor_def Let_def)
  next
    case (Some nn)
    have "search_measure m (relax_first p cur (node_g cur + 1) ns) cl = search_measure m ns cl"
      by (simp add: search_measure_def unseen_def set_pos_relax_first length_relax_first)
    then show ?thesis using True Some by (simp add: visit_neighbor_def Let_def)
  qed
qed

lemma search_measure_fold_visit:
  "search_measure m (fold (visit_neighbor m ex ey cur cl) ps ns) cl \<le> search_measure m ns cl"
proof (induction ps arbitrary: ns)
  case Nil
  show ?case by simp
next
  case (Cons p ps)
  have "search_measure m (fold (visit_neighbor m ex ey cur cl) ps (visit_neighbor m ex ey cur cl p ns)) cl
          \<le> search_measure m (visit_neighbor m ex ey cur cl p ns) cl"
    by (rule Cons.IH)
  also have "\<dots> \<le> search_measure m ns cl" by (rule search_measure_visit)
  finally show ?case by simp
qed

lemma search_measure_shift:
  assumes "sort_key node_f ns = cur # rest"
  shows "search_measure m rest (insert (node_pos cur) cl) < search_measure m ns cl"
proof -
  have s: "set ns = insert cur (set rest)"
    using assms by (metis list.simps(15) set_sort)
  have l: "length ns = Suc (length rest)"
    using assms by (metis length_Cons length_sort)
  have "unseen m rest (insert (node_pos cur) cl) \<subseteq> unseen m ns cl"
    by (auto simp: unseen_def s)
  then have "card (unseen m rest (insert (node_pos cur) cl)) \<le> card (unseen m ns cl)"
    by (rule card_mono [OF finite_unseen])
  then show ?thesis by (simp add: search_measure_def l)
qed

lemma search_measure_expand:
  assumes "sort_key node_f ns = cur # rest"
  shows "search_measure m (fst (expand m ex ey cur rest cl)) (snd (expand m ex ey cur rest cl))
           < search_measure m ns cl"
  using search_measure_fold_visit [of m ex ey cur "insert (node_pos cur) cl" "neighbors cur" rest]
        search_measure_shift [OF assms, of m cl]
  by (simp add: expand_def Let_def)

termination findPath_loop
  by (relation "measure (\<lambda>(m, ex, ey, ns, cl). search_measure m ns cl)")
     (simp_all add: search_measure_expand case_prod_unfold)

declare findPath_loop.simps [simp del]

section \<open>What the search reads and what the calls write\<close>





text \<open>\<open>findPath\<close> writes no field but the cache; \<open>canPlaceTower\<close> none but the cache and the console.\<close>

lemma findPath_frame:
  "\<exists>pc. snd (findPath m sx sy ex ey force) = m\<lparr>pathCache := pc\<rparr>"
proof (cases "if force then None else pathCache m (sx, sy, ex, ey)")
  case None
  then show ?thesis by (auto simp: findPath_def Let_def)
next
  case (Some r)
  then have "snd (findPath m sx sy ex ey force) = m\<lparr>pathCache := pathCache m\<rparr>"
    by (simp add: findPath_def Let_def)
  then show ?thesis by blast
qed

lemma check_spawns_frame:
  "\<exists>pc. snd (check_spawns m base spawns) = m\<lparr>pathCache := pc\<rparr>"
proof (induction spawns arbitrary: m)
  case Nil
  have "snd (check_spawns m base []) = m\<lparr>pathCache := pathCache m\<rparr>" by simp
  then show ?case by blast
next
  case (Cons s spawns)
  obtain r m' where fp: "findPath m (fst s) (snd s) (fst base) (snd base) True = (r, m')"
    by (cases "findPath m (fst s) (snd s) (fst base) (snd base) True")
  obtain pc where m': "m' = m\<lparr>pathCache := pc\<rparr>"
    using findPath_frame [of m "fst s" "snd s" "fst base" "snd base" True] fp by auto
  obtain pc' where rest: "snd (check_spawns m' base spawns) = m'\<lparr>pathCache := pc'\<rparr>"
    using Cons.IH [of m'] by blast
  show ?case
  proof (cases "r = None \<or> r = Some []")
    case True
    then have "snd (check_spawns m base (s # spawns)) = m\<lparr>pathCache := pc\<rparr>"
      using fp m' by auto
    then show ?thesis by blast
  next
    case False
    then obtain p where "r = Some p" "p \<noteq> []" by auto
    then have "snd (check_spawns m base (s # spawns)) = m\<lparr>pathCache := pc'\<rparr>"
      using fp m' rest by simp
    then show ?thesis by blast
  qed
qed

lemma write_cell_restore:
  assumes "cell m x y = t"
  shows "write_cell x y t (m'\<lparr>grid := grid (write_cell x y t' m)\<rparr>) = m'\<lparr>grid := grid m\<rparr>"
proof -
  let ?g = "grid m"
  have "(?g[nat y := (?g ! nat y)[nat x := t']])[nat y := ((?g[nat y := (?g ! nat y)[nat x := t']]) ! nat y)[nat x := t]] = ?g"
  proof (cases "nat y < length ?g")
    case True
    have "(?g ! nat y)[nat x := t] = ?g ! nat y"
      using assms unfolding cell_def by (metis list_update_id)
    with True show ?thesis by (simp add: list_update_same_conv)
  next
    case False
    then show ?thesis by (simp add: list_update_beyond)
  qed
  then show ?thesis by (simp add: write_cell_def)
qed

lemma canPlaceTower_frame:
  "\<exists>pc co. snd (canPlaceTower m x y) = m\<lparr>pathCache := pc, console := co\<rparr>"
proof (cases "isCellPassable m x y False")
  case False
  then have "snd (canPlaceTower m x y)
      = m\<lparr>pathCache := pathCache m,
           console := console m @ [ConsoleDebug ''Tower placement denied: Cell not empty''
                                     [x, y, getCellType m x y]]\<rparr>"
    by (simp add: canPlaceTower_def console_debug_def)
  then show ?thesis by blast
next
  case True
  let ?m1 = "write_cell x y CELL_TOWER m"
  have restore: "write_cell x y (cell m x y) (m'\<lparr>grid := grid ?m1\<rparr>) = m'\<lparr>grid := grid m\<rparr>" for m'
    by (rule write_cell_restore) simp
  show ?thesis
  proof (cases "playerBase m")
    case None
    let ?co = "console m @ [ConsoleError ''Player base not set, cannot check tower placement.'' []]"
    have "console_error ''Player base not set, cannot check tower placement.'' [] ?m1
            = (m\<lparr>pathCache := pathCache m, console := ?co\<rparr>)\<lparr>grid := grid ?m1\<rparr>"
      by (simp add: console_error_def write_cell_def)
    then have "snd (canPlaceTower m x y) = m\<lparr>pathCache := pathCache m, console := ?co\<rparr>"
      using True None restore [of "m\<lparr>pathCache := pathCache m, console := ?co\<rparr>"]
      by (simp add: canPlaceTower_def Let_def write_cell_def)
    then show ?thesis by blast
  next
    case (Some base)
    obtain ok m2 where cs: "check_spawns ?m1 base (enemySpawns ?m1) = (ok, m2)"
      by (cases "check_spawns ?m1 base (enemySpawns ?m1)")
    obtain pc where m2: "m2 = ?m1\<lparr>pathCache := pc\<rparr>"
      using check_spawns_frame [of ?m1 base "enemySpawns ?m1"] cs by auto
    have "m2 = (m\<lparr>pathCache := pc\<rparr>)\<lparr>grid := grid ?m1\<rparr>"
      by (simp add: m2 write_cell_def)
    then have m3: "write_cell x y (cell m x y) m2 = m\<lparr>pathCache := pc\<rparr>"
      using restore [of "m\<lparr>pathCache := pc\<rparr>"] by simp
    have "snd (canPlaceTower m x y)
            = (if ok then m\<lparr>pathCache := pc, console := console m\<rparr>
               else m\<lparr>pathCache := pc,
                      console := console m @ [ConsoleDebug ''Tower placement denied: Blocks path.'' [x, y]]\<rparr>)"
      using True Some cs m3 by (simp add: canPlaceTower_def Let_def console_debug_def write_cell_def)
    then have "snd (canPlaceTower m x y)
            = m\<lparr>pathCache := pc,
                 console := (if ok then console m
                             else console m @ [ConsoleDebug ''Tower placement denied: Blocks path.'' [x, y]])\<rparr>"
      by simp
    then show ?thesis by blast
  qed
qed

lemma canPlaceTower_cells:
  "getCellType (snd (canPlaceTower m x y)) cx cy = getCellType m cx cy"
proof -
  obtain pc co where "snd (canPlaceTower m x y) = m\<lparr>pathCache := pc, console := co\<rparr>"
    using canPlaceTower_frame by blast
  then show ?thesis by (simp add: getCellType_def isValidGridCoords_def cell_def)
qed

section \<open>What the listeners can change\<close>

lemma emit_MapChanged:
  "emit (MapChanged x y t) m
     = (if eventEmitter m then m\<lparr>emitted := emitted m @ [MapChanged x y t]\<rparr> else m)"
  by (simp add: emit_def)

lemma stable_console:
  assumes "listener_stable Q"
  shows "Q (console_log s a m) = Q m" "Q (console_warn s a m) = Q m" "Q (console_error s a m) = Q m"
  using assms by (simp_all add: listener_stable_def console_log_def console_warn_def console_error_def)

lemma stable_findPath:
  assumes "listener_stable Q" "Q m"
  shows "Q (snd (findPath m sx sy ex ey False))"
  using assms by (simp add: listener_stable_def)

lemma stable_reset_path_index:
  assumes "listener_stable Q" "Q m"
  shows "Q (snd (reset_path_index e m))"
  using assms(2) by (simp add: reset_path_index_def Let_def stable_console [OF assms(1)])

lemma stable_recalculatePath:
  assumes st: "listener_stable Q" and q: "Q m"
  shows "Q (snd (recalculatePath e m))"
proof -
  obtain p1 m1 where f1: "findPath m (startGridX e) (startGridY e) (targetGridX e) (targetGridY e) False
                            = (p1, m1)"
    by (cases "findPath m (startGridX e) (startGridY e) (targetGridX e) (targetGridY e) False")
  have q1: "Q m1"
    using stable_findPath [OF st q, of "startGridX e" "startGridY e" "targetGridX e" "targetGridY e"] f1
    by simp
  show ?thesis
  proof (cases "no_path p1")
    case False
    then show ?thesis
      using f1 stable_reset_path_index [OF st q1] by (simp add: recalculatePath_def)
  next
    case True
    let ?mw = "console_warn ''BasicEnemy: No path found or path is empty.'' [] m1"
    obtain p2 m2 where f2: "findPath ?mw (fst (gridPos e)) (snd (gridPos e)) (targetGridX e) (targetGridY e) False
                              = (p2, m2)"
      by (cases "findPath ?mw (fst (gridPos e)) (snd (gridPos e)) (targetGridX e) (targetGridY e) False")
    have "Q ?mw" using q1 by (simp add: stable_console [OF st])
    then have q2: "Q m2"
      using stable_findPath [OF st, of ?mw "fst (gridPos e)" "snd (gridPos e)" "targetGridX e" "targetGridY e"] f2
      by simp
    show ?thesis
    proof (cases "no_path p2")
      case True
      then show ?thesis
        using f1 f2 \<open>no_path p1\<close> q2 by (simp add: recalculatePath_def stable_console [OF st])
    next
      case False
      then show ?thesis
        using f1 f2 \<open>no_path p1\<close> stable_reset_path_index [OF st q2] by (simp add: recalculatePath_def)
    qed
  qed
qed

lemma stable_update_enemies:
  assumes st: "listener_stable Q"
  shows "Q m \<Longrightarrow> Q (snd (update_enemies enemies m))"
proof (induction enemies arbitrary: m)
  case Nil
  then show ?case by simp
next
  case (Cons e enemies)
  show ?case
  proof (cases "isActive e")
    case False
    obtain es' m' where r: "update_enemies enemies m = (es', m')"
      by (cases "update_enemies enemies m")
    then have "Q m'" using Cons.IH [OF Cons.prems] by simp
    then show ?thesis using False r by simp
  next
    case True
    obtain e' m' where r: "onMapStructureChanged e m = (e', m')"
      by (cases "onMapStructureChanged e m")
    have "Q (snd (onMapStructureChanged e m))"
      unfolding onMapStructureChanged_def by (rule stable_recalculatePath [OF st Cons.prems])
    then have "Q m'" using r by simp
    then have "Q (snd (update_enemies enemies m'))" by (rule Cons.IH)
    then show ?thesis using True r by (cases "update_enemies enemies m'") simp
  qed
qed

lemma stable_run_listeners:
  assumes st: "listener_stable Q"
  shows "Q m \<Longrightarrow> Q (snd (run_listeners ls m))"
proof (induction ls arbitrary: m)
  case Nil
  then show ?case by simp
next
  case (Cons l ls)
  obtain l' m' where r: "updateAllEnemyPaths l m = (l', m')"
    by (cases "updateAllEnemyPaths l m")
  have "Q (console_log ''EnemyManager: Updating paths for all active enemies due to map change.'' [] m)"
    using Cons.prems by (simp add: stable_console [OF st])
  then have "Q (snd (updateAllEnemyPaths l m))"
    unfolding updateAllEnemyPaths_def by (rule stable_update_enemies [OF st])
  then have "Q m'" using r by simp
  then have "Q (snd (run_listeners ls m'))" by (rule Cons.IH)
  then show ?case using r by (cases "run_listeners ls m'") simp
qed

lemma stable_emit:
  assumes st: "listener_stable Q" and q: "Q m"
  shows "Q (emit e m)"
proof (cases "eventEmitter m")
  case False
  then show ?thesis using q by (simp add: emit_def)
next
  case True
  have q0: "Q (m\<lparr>emitted := emitted m @ [e]\<rparr>)"
    using st q by (simp add: listener_stable_def)
  show ?thesis
  proof (cases e)
    case (MapChanged x y t)
    then show ?thesis using True q0 by (simp add: emit_def)
  next
    case MapStructureChanged
    obtain ls m' where r: "run_listeners (listeners m) (m\<lparr>emitted := emitted m @ [e]\<rparr>) = (ls, m')"
      by (cases "run_listeners (listeners m) (m\<lparr>emitted := emitted m @ [e]\<rparr>)")
    have "Q m'" using stable_run_listeners [OF st q0, of "listeners m"] r by simp
    then have "Q (m'\<lparr>listeners := ls\<rparr>)" using st by (simp add: listener_stable_def)
    then show ?thesis using True MapStructureChanged r by (simp add: emit_def)
  qed
qed

text \<open>The grid, its dimensions and the freshness of the cache are such properties.\<close>

lemma stable_grid:
  "listener_stable (\<lambda>m. gridWidth m = w \<and> gridHeight m = h \<and> grid m = g)"
proof -
  have "gridWidth (snd (findPath m sx sy ex ey False)) = gridWidth m
        \<and> gridHeight (snd (findPath m sx sy ex ey False)) = gridHeight m
        \<and> grid (snd (findPath m sx sy ex ey False)) = grid m" for m sx sy ex ey
  proof -
    obtain pc where "snd (findPath m sx sy ex ey False) = m\<lparr>pathCache := pc\<rparr>"
      using findPath_frame by blast
    then show ?thesis by simp
  qed
  then show ?thesis by (simp add: listener_stable_def)
qed

lemma grid_emit:
  "gridWidth (emit e m) = gridWidth m" "gridHeight (emit e m) = gridHeight m" "grid (emit e m) = grid m"
  using stable_emit [OF stable_grid [of "gridWidth m" "gridHeight m" "grid m"], of m e] by simp_all


section \<open>The placement check leaves the grid as it was\<close>

text \<open>
  C2.  For every object \<open>m\<close> (with or without a registered base) and all coordinates,
  the cell state read by \<open>getCellType\<close> at every position \<open>(cx, cy)\<close> is the same after
  \<open>canPlaceTower(x, y)\<close> as before it, and so after any sequence of such checks: the
  tower written for the simulation is taken back on each way out.
\<close>

theorem canPlaceTower_keeps_cell_states:
  "getCellType (snd (canPlaceTower m x y)) cx cy = getCellType m cx cy
   \<and> getCellType (run (map (\<lambda>p. CanPlaceTower (fst p) (snd p)) ps) m) cx cy = getCellType m cx cy"
proof
  show "getCellType (snd (canPlaceTower m x y)) cx cy = getCellType m cx cy"
    by (rule canPlaceTower_cells)
  show "getCellType (run (map (\<lambda>p. CanPlaceTower (fst p) (snd p)) ps) m) cx cy = getCellType m cx cy"
  proof (induction ps arbitrary: m)
    case Nil
    show ?case by (simp add: run_def)
  next
    case (Cons p ps)
    have "getCellType (run (map (\<lambda>p. CanPlaceTower (fst p) (snd p)) ps) (snd (canPlaceTower m (fst p) (snd p)))) cx cy
            = getCellType (snd (canPlaceTower m (fst p) (snd p))) cx cy"
      by (rule Cons.IH)
    then show ?case by (simp add: run_def canPlaceTower_cells)
  qed
qed

section \<open>The shape of the grid is kept by every call\<close>

lemma shape_write_cell: "shape (write_cell x y t m) = shape m"
proof -
  let ?g = "grid m"
  have "map length (?g[nat y := (?g ! nat y)[nat x := t]]) = map length ?g"
  proof (cases "nat y < length ?g")
    case True
    have "map length (?g[nat y := (?g ! nat y)[nat x := t]])
            = (map length ?g)[nat y := map length ?g ! nat y]"
      using True by (simp add: map_update)
    then show ?thesis by (simp only: list_update_id)
  next
    case False
    then show ?thesis by (simp add: list_update_beyond)
  qed
  then show ?thesis by (simp add: shape_def write_cell_def)
qed

lemma shape_setCellType: "shape (setCellType m x y t) = shape m"
  using shape_write_cell [of x y t m]
  by (simp add: setCellType_def emit_def invalidatePathCache_def shape_def)

lemma shape_console_log: "shape (console_log s a m) = shape m"
  by (simp add: shape_def console_log_def)

lemma shape_emit: "shape (emit e m) = shape m"
  by (simp add: shape_def grid_emit)

lemma shape_invalidate: "shape (invalidatePathCache m) = shape m"
  by (simp add: shape_def invalidatePathCache_def)

lemma shape_canPlaceTower: "shape (snd (canPlaceTower m x y)) = shape m"
proof -
  obtain pc co where "snd (canPlaceTower m x y) = m\<lparr>pathCache := pc, console := co\<rparr>"
    using canPlaceTower_frame by blast
  then show ?thesis by (simp add: shape_def)
qed

lemma shape_findPath: "shape (snd (findPath m sx sy ex ey force)) = shape m"
proof -
  obtain pc where "snd (findPath m sx sy ex ey force) = m\<lparr>pathCache := pc\<rparr>"
    using findPath_frame by blast
  then show ?thesis by (simp add: shape_def)
qed

lemma shape_placeTower: "shape (snd (placeTower m x y)) = shape m"
proof (cases "canPlaceTower m x y")
  case (Pair ok m1)
  then have "shape m1 = shape m" using shape_canPlaceTower [of m x y] by simp
  with Pair show ?thesis
    by (cases ok)
       (simp_all add: placeTower_def shape_emit shape_invalidate shape_console_log shape_setCellType)
qed

lemma shape_perform: "shape (perform c m) = shape m"
proof (cases c)
  case (RegisterBase x y)
  have "shape (setCellType (m\<lparr>playerBase := Some (x, y)\<rparr>) x y CELL_BASE) = shape m"
    by (simp add: shape_setCellType) (simp add: shape_def)
  then show ?thesis using RegisterBase
    by (simp add: setPlayerBase_def shape_console_log) (simp add: shape_def console_error_def)
next
  case (RegisterSpawn x y)
  have "shape (setCellType (m\<lparr>enemySpawns := enemySpawns m @ [(x, y)]\<rparr>) x y CELL_SPAWN) = shape m"
    by (simp add: shape_setCellType) (simp add: shape_def)
  then show ?thesis using RegisterSpawn
    by (simp add: addEnemySpawn_def shape_console_log) (simp add: shape_def console_error_def)
next
  case (RegisterObstacle x y)
  then show ?thesis by (simp add: addObstacle_def shape_console_log shape_setCellType)
next
  case (PlaceTower x y)
  then show ?thesis by (simp add: shape_placeTower)
next
  case (RemoveTower x y)
  then show ?thesis by (simp add: removeTower_def shape_emit shape_invalidate shape_setCellType)
next
  case (SetCellState x y t)
  then show ?thesis by (simp add: shape_setCellType)
next
  case (CanPlaceTower x y)
  then show ?thesis by (simp add: shape_canPlaceTower)
next
  case (FindPath sx sy ex ey force)
  then show ?thesis by (simp add: shape_findPath)
next
  case (Collaborators ls)
  then show ?thesis by (simp add: shape_def)
qed

lemma shape_run: "shape (run calls m) = shape m"
  by (induction calls arbitrary: m) (simp_all add: run_def shape_perform)

lemma wf_grid_shape: "shape m' = shape m \<Longrightarrow> wf_grid m' = wf_grid m"
  by (simp add: shape_def wf_grid_def)

lemma wf_grid_init: "wf_grid (init_MapSystem w h em)"
  by (simp add: wf_grid_def init_MapSystem_def)

lemma wf_grid_run: "wf_grid (run calls (init_MapSystem w h em))"
  using wf_grid_shape [OF shape_run] wf_grid_init by blast

lemma dims_run:
  "gridWidth (run calls m) = gridWidth m" "gridHeight (run calls m) = gridHeight m"
  using shape_run [of calls m] by (simp_all add: shape_def)

lemma wf_grid_rows:
  assumes "wf_grid m" "isValidGridCoords m x y"
  shows "nat y < length (grid m)" "nat x < length (grid m ! nat y)"
proof -
  have len: "length (grid m) = nat (gridHeight m)"
    using assms(1) by (metis wf_grid_def length_map length_replicate)
  show y: "nat y < length (grid m)"
    using assms(2) len by (simp add: isValidGridCoords_def)
  have "length (grid m ! nat y) = map length (grid m) ! nat y"
    using y by simp
  also have "\<dots> = nat (gridWidth m)"
    using assms(1) y len by (simp add: wf_grid_def)
  finally show "nat x < length (grid m ! nat y)"
    using assms(2) by (simp add: isValidGridCoords_def)
qed

lemma cell_write_cell:
  assumes "wf_grid m" "isValidGridCoords m x y"
  shows "cell (write_cell x y t m) x y = t"
  using wf_grid_rows [OF assms] by (simp add: cell_def write_cell_def)

lemma getCellType_setCellType:
  assumes "wf_grid m" "isValidGridCoords m x y"
  shows "getCellType (setCellType m x y t) x y = t"
proof -
  have "isValidGridCoords (setCellType m x y t) x y"
    using assms(2) shape_setCellType [of m x y t] by (simp add: shape_def isValidGridCoords_def)
  moreover have "cell (setCellType m x y t) x y = cell (write_cell x y t m) x y"
    using assms(2) by (simp add: setCellType_def cell_def emit_def invalidatePathCache_def)
  ultimately show ?thesis
    using cell_write_cell [OF assms, of t] by (simp add: getCellType_def)
qed

lemma getCellType_console_log [simp]: "getCellType (console_log s a m) = getCellType m"
  by (intro ext) (simp add: getCellType_def isValidGridCoords_def cell_def console_log_def)

section \<open>Registering an obstacle\<close>

lemma addObstacle_wf:
  assumes "wf_grid m"
  shows "fst (addObstacle m x y) = Normal (isValidGridCoords m x y \<and> getCellType m x y = CELL_EMPTY)"
    and "fst (addObstacle m x y) = Normal True \<Longrightarrow> getCellType (snd (addObstacle m x y)) x y = CELL_OBSTACLE"
    and "fst (addObstacle m x y) = Normal False \<Longrightarrow> snd (addObstacle m x y) = m"
proof -
  show "fst (addObstacle m x y) = Normal (isValidGridCoords m x y \<and> getCellType m x y = CELL_EMPTY)"
    by (simp add: addObstacle_def getCellType_def)
  show "getCellType (snd (addObstacle m x y)) x y = CELL_OBSTACLE" if "fst (addObstacle m x y) = Normal True"
  proof -
    from that have ok: "isValidGridCoords m x y" "cell m x y = CELL_EMPTY"
      by (auto simp: addObstacle_def split: if_splits)
    then show ?thesis
      using getCellType_setCellType [OF assms ok(1), of CELL_OBSTACLE] by (simp add: addObstacle_def)
  qed
  show "snd (addObstacle m x y) = m" if "fst (addObstacle m x y) = Normal False"
    using that by (auto simp: addObstacle_def split: if_splits)
qed

text \<open>
  C8.  In every state reached from a fresh object by calls of the class, \<open>addObstacle(x, y)\<close>
  returns normally, and returns \<open>true\<close> exactly when \<open>(x, y)\<close> is inside the grid and the
  cell is empty (type 0).  When it returns \<open>true\<close> the cell holds type 2 (obstacle)
  afterwards; when it returns \<open>false\<close> the object is unchanged.
\<close>

theorem addObstacle_succeeds_iff_empty:
  "fst (addObstacle (run calls (init_MapSystem w h em)) x y)
     = Normal (isValidGridCoords (run calls (init_MapSystem w h em)) x y
               \<and> getCellType (run calls (init_MapSystem w h em)) x y = CELL_EMPTY)
   \<and> (fst (addObstacle (run calls (init_MapSystem w h em)) x y) = Normal True
        \<longrightarrow> getCellType (snd (addObstacle (run calls (init_MapSystem w h em)) x y)) x y = CELL_OBSTACLE)
   \<and> (fst (addObstacle (run calls (init_MapSystem w h em)) x y) = Normal False
        \<longrightarrow> snd (addObstacle (run calls (init_MapSystem w h em)) x y) = run calls (init_MapSystem w h em))"
  using addObstacle_wf [OF wf_grid_run, of calls w h em x y] by blast

theorem addObstacle_succeeds_iff_empty_witness:
  "fst (addObstacle (run [] (init_MapSystem 2 2 False)) 0 0) = Normal True
   \<and> getCellType (snd (addObstacle (run [] (init_MapSystem 2 2 False)) 0 0)) 0 0 = CELL_OBSTACLE
   \<and> fst (addObstacle (run [RegisterObstacle 0 0] (init_MapSystem 2 2 False)) 0 0) = Normal False
   \<and> snd (addObstacle (run [RegisterObstacle 0 0] (init_MapSystem 2 2 False)) 0 0)
        = run [RegisterObstacle 0 0] (init_MapSystem 2 2 False)
   \<and> fst (addObstacle (run [] (init_MapSystem 2 2 False)) 5 0) = Normal False"
proof -
  have a: "fst (addObstacle (run [] (init_MapSystem 2 2 False)) 0 0) = Normal True"
    by (simp add: run_def addObstacle_def init_MapSystem_def isValidGridCoords_def cell_def)
  have b: "fst (addObstacle (run [RegisterObstacle 0 0] (init_MapSystem 2 2 False)) 0 0) = Normal False"
    by (simp add: run_def addObstacle_def init_MapSystem_def isValidGridCoords_def cell_def
          setCellType_def console_log_def emit_def invalidatePathCache_def write_cell_def)
  have c: "fst (addObstacle (run [] (init_MapSystem 2 2 False)) 5 0) = Normal False"
    by (simp add: run_def addObstacle_def init_MapSystem_def isValidGridCoords_def cell_def)
  show ?thesis
    using a b c
      addObstacle_succeeds_iff_empty [of "[]" 2 2 False 0 0]
      addObstacle_succeeds_iff_empty [of "[RegisterObstacle 0 0]" 2 2 False 0 0]
    by simp
qed

section \<open>Registering a base or a spawn outside the grid\<close>

text \<open>
  C6, as the claim states it, does not hold: outside the grid \<open>setPlayerBase\<close> and
  \<open>addEnemySpawn\<close> return normally; no error is thrown or returned.  On a 3 by 3 grid, at (5, 5):
\<close>

theorem register_out_of_bounds_counterexample:
  "fst (setPlayerBase (init_MapSystem 3 3 False) 5 5) = Normal ()
   \<and> fst (addEnemySpawn (init_MapSystem 3 3 False) 5 5) = Normal ()"
  by (simp add: setPlayerBase_def addEnemySpawn_def isValidGridCoords_def init_MapSystem_def)

text \<open>
  C6, amended.  For every coordinate outside the grid, \<open>setPlayerBase\<close> and \<open>addEnemySpawn\<close>
  return normally and change nothing of the object: their only effect is one
  \<^verbatim>\<open>console.error\<close> line (\<^verbatim>\<open>Invalid coordinates for player base.\<close>, respectively
  \<^verbatim>\<open>Invalid coordinates for enemy spawn.\<close>).  In particular no cell changes its state.
\<close>

theorem register_out_of_bounds_logs_only:
  assumes "\<not> isValidGridCoords m x y"
  shows "setPlayerBase m x y
           = (Normal (), m\<lparr>console := console m @ [ConsoleError ''Invalid coordinates for player base.'' []]\<rparr>)
       \<and> addEnemySpawn m x y
           = (Normal (), m\<lparr>console := console m @ [ConsoleError ''Invalid coordinates for enemy spawn.'' []]\<rparr>)
       \<and> getCellType (snd (setPlayerBase m x y)) cx cy = getCellType m cx cy
       \<and> getCellType (snd (addEnemySpawn m x y)) cx cy = getCellType m cx cy
       \<and> grid (snd (setPlayerBase m x y)) = grid m
       \<and> grid (snd (addEnemySpawn m x y)) = grid m"
proof -
  have b: "setPlayerBase m x y
           = (Normal (), m\<lparr>console := console m @ [ConsoleError ''Invalid coordinates for player base.'' []]\<rparr>)"
    using assms by (simp add: setPlayerBase_def console_error_def)
  have s: "addEnemySpawn m x y
           = (Normal (), m\<lparr>console := console m @ [ConsoleError ''Invalid coordinates for enemy spawn.'' []]\<rparr>)"
    using assms by (simp add: addEnemySpawn_def console_error_def)
  show ?thesis
    unfolding b s by (simp add: getCellType_def isValidGridCoords_def cell_def)
qed

theorem register_out_of_bounds_logs_only_witness:
  "\<not> isValidGridCoords (init_MapSystem 3 3 False) 5 5
   \<and> snd (setPlayerBase (init_MapSystem 3 3 False) 5 5)
       = (init_MapSystem 3 3 False)
           \<lparr>console := console (init_MapSystem 3 3 False)
                         @ [ConsoleError ''Invalid coordinates for player base.'' []]\<rparr>
   \<and> grid (snd (addEnemySpawn (init_MapSystem 3 3 False) 5 5)) = grid (init_MapSystem 3 3 False)"
proof -
  have h: "\<not> isValidGridCoords (init_MapSystem 3 3 False) 5 5"
    by (simp add: isValidGridCoords_def init_MapSystem_def)
  show ?thesis
    using h register_out_of_bounds_logs_only [OF h, of 0 0] by simp
qed

section \<open>Mutations empty the path cache\<close>

lemma pathCache_emit [simp]: "pathCache (emit (MapChanged x y t) m) = pathCache m"
  by (simp add: emit_MapChanged)

lemma pathCache_invalidate [simp]: "pathCache (invalidatePathCache m) = Map.empty"
  by (simp add: invalidatePathCache_def)

lemma pathCache_console_log [simp]: "pathCache (console_log s a m) = pathCache m"
  by (simp add: console_log_def)


lemma findPath_empty_cache:
  "pathCache m = Map.empty \<Longrightarrow> fst (findPath m sx sy ex ey False) = search m sx sy ex ey"
  by (simp add: findPath_def Let_def)














section \<open>A second lookup is served from the cache\<close>

text \<open>
  C9.  After \<open>findPath(sx, sy, ex, ey)\<close> with the cache enabled, the cache holds the returned
  value (a path or \<^verbatim>\<open>null\<close>) under these endpoints; a second such call returns the same
  value and leaves the object as it is; and it returns that value whatever the grid holds
  by then, so it is read from the cache and not searched for again.
\<close>

theorem findPath_twice_cache_hit:
  "pathCache (snd (findPath m sx sy ex ey False)) (sx, sy, ex, ey)
     = Some (fst (findPath m sx sy ex ey False))
   \<and> findPath (snd (findPath m sx sy ex ey False)) sx sy ex ey False
     = (fst (findPath m sx sy ex ey False), snd (findPath m sx sy ex ey False))
   \<and> fst (findPath ((snd (findPath m sx sy ex ey False))\<lparr>gridWidth := w', gridHeight := h', grid := g'\<rparr>)
             sx sy ex ey False)
     = fst (findPath m sx sy ex ey False)"
proof (cases "pathCache m (sx, sy, ex, ey)")
  case None
  then show ?thesis by (simp add: findPath_def Let_def)
next
  case (Some r)
  then show ?thesis by (simp add: findPath_def Let_def)
qed

section \<open>The blocking scenario\<close>

lemma corridor_grid: "grid (corridor_scenario em) = [[0, 2, 0], [4, 0, 3], [0, 2, 0]]"
proof -
  have "grid (corridor_scenario True) = [[0, 2, 0], [4, 0, 3], [0, 2, 0]]" by code_simp
  moreover have "grid (corridor_scenario False) = [[0, 2, 0], [4, 0, 3], [0, 2, 0]]" by code_simp
  ultimately show ?thesis by (cases em) simp_all
qed

text \<open>
  C3.  On the 3 by 3 map with the base at (2, 1), the spawn at (0, 1) and obstacles at
  (1, 0) and (1, 2), \<open>canPlaceTower(1, 1)\<close> returns \<open>false\<close>, \<open>placeTower(1, 1)\<close> returns
  \<open>false\<close>, and after the \<open>placeTower\<close> call the cell (1, 1) is still empty.
\<close>

theorem corridor_tower_rejected:
  "grid (corridor_scenario em) = [[0, 2, 0], [4, 0, 3], [0, 2, 0]]
   \<and> fst (canPlaceTower (corridor_scenario em) 1 1) = False
   \<and> fst (placeTower (corridor_scenario em) 1 1) = False
   \<and> getCellType (snd (placeTower (corridor_scenario em) 1 1)) 1 1 = CELL_EMPTY"
proof -
  have "fst (canPlaceTower (corridor_scenario True) 1 1) = False"
       "fst (canPlaceTower (corridor_scenario False) 1 1) = False"
    by code_simp+
  then have c: "fst (canPlaceTower (corridor_scenario em) 1 1) = False"
    by (cases em) simp_all
  have "fst (placeTower (corridor_scenario True) 1 1) = False"
       "fst (placeTower (corridor_scenario False) 1 1) = False"
    by code_simp+
  then have p: "fst (placeTower (corridor_scenario em) 1 1) = False"
    by (cases em) simp_all
  have "getCellType (snd (placeTower (corridor_scenario True) 1 1)) 1 1 = CELL_EMPTY"
       "getCellType (snd (placeTower (corridor_scenario False) 1 1)) 1 1 = CELL_EMPTY"
    by code_simp+
  then have g: "getCellType (snd (placeTower (corridor_scenario em) 1 1)) 1 1 = CELL_EMPTY"
    by (cases em) simp_all
  show ?thesis using corridor_grid c p g by blast
qed

section \<open>A forced search still writes the cache\<close>

lemma findPath_bypass_result:
  "findPath m sx sy ex ey True
     = (search m sx sy ex ey, m\<lparr>pathCache := (pathCache m)((sx, sy, ex, ey) \<mapsto> search m sx sy ex ey)\<rparr>)"
  by (simp add: findPath_def Let_def)

text \<open>
  C1.  With \<open>forceRecalculate\<close> set, \<open>findPath\<close> does not read the cache: it returns the
  result of a new search.  It does store that result under the endpoints, as every search
  does.  On the blocking scenario the entry for (0, 1) to (2, 1) is absent before and is
  the path through (1, 1) after such a call.  The calls made by \<open>canPlaceTower(1, 1)\<close>
  there run on the grid with the simulated tower and leave the entry \<^verbatim>\<open>null\<close>; the grid
  is put back and still has the path, yet the next cached \<open>findPath\<close> from the spawn to
  the base answers \<^verbatim>\<open>null\<close>.
\<close>

theorem bypassed_findPath_writes_cache:
  "fst (findPath m sx sy ex ey True) = search m sx sy ex ey
   \<and> pathCache (snd (findPath m sx sy ex ey True)) (sx, sy, ex, ey) = Some (search m sx sy ex ey)
   \<and> pathCache (corridor_scenario em) (0, 1, 2, 1) = None
   \<and> pathCache (snd (findPath (corridor_scenario em) 0 1 2 1 True)) (0, 1, 2, 1)
       = Some (Some [(0, 1), (1, 1), (2, 1)])
   \<and> pathCache (snd (canPlaceTower (corridor_scenario em) 1 1)) (0, 1, 2, 1) = Some None
   \<and> search (snd (canPlaceTower (corridor_scenario em) 1 1)) 0 1 2 1 = Some [(0, 1), (1, 1), (2, 1)]
   \<and> fst (findPath (snd (canPlaceTower (corridor_scenario em) 1 1)) 0 1 2 1 False) = None"
proof -
  have a: "pathCache (corridor_scenario em) (0, 1, 2, 1) = None"
  proof -
    have "pathCache (corridor_scenario True) (0, 1, 2, 1) = None"
         "pathCache (corridor_scenario False) (0, 1, 2, 1) = None"
      by code_simp+
    then show ?thesis by (cases em) simp_all
  qed
  have b: "pathCache (snd (findPath (corridor_scenario em) 0 1 2 1 True)) (0, 1, 2, 1)
             = Some (Some [(0, 1), (1, 1), (2, 1)])"
  proof -
    have "pathCache (snd (findPath (corridor_scenario True) 0 1 2 1 True)) (0, 1, 2, 1)
             = Some (Some [(0, 1), (1, 1), (2, 1)])"
         "pathCache (snd (findPath (corridor_scenario False) 0 1 2 1 True)) (0, 1, 2, 1)
             = Some (Some [(0, 1), (1, 1), (2, 1)])"
      by code_simp+
    then show ?thesis by (cases em) simp_all
  qed
  have c: "pathCache (snd (canPlaceTower (corridor_scenario em) 1 1)) (0, 1, 2, 1) = Some None"
  proof -
    have "pathCache (snd (canPlaceTower (corridor_scenario True) 1 1)) (0, 1, 2, 1) = Some None"
         "pathCache (snd (canPlaceTower (corridor_scenario False) 1 1)) (0, 1, 2, 1) = Some None"
      by code_simp+
    then show ?thesis by (cases em) simp_all
  qed
  have d: "search (snd (canPlaceTower (corridor_scenario em) 1 1)) 0 1 2 1 = Some [(0, 1), (1, 1), (2, 1)]"
  proof -
    have "search (snd (canPlaceTower (corridor_scenario True) 1 1)) 0 1 2 1 = Some [(0, 1), (1, 1), (2, 1)]"
         "search (snd (canPlaceTower (corridor_scenario False) 1 1)) 0 1 2 1 = Some [(0, 1), (1, 1), (2, 1)]"
      by code_simp+
    then show ?thesis by (cases em) simp_all
  qed
  have e: "fst (findPath (snd (canPlaceTower (corridor_scenario em) 1 1)) 0 1 2 1 False) = None"
    using c by (simp add: findPath_def)
  show ?thesis
    using a b c d e by (simp add: findPath_bypass_result)
qed

section \<open>A search from a cell to itself\<close>

lemma search_same_ends: "search m x y x y = Some [(x, y)]"
  by (simp add: search_def findPath_loop.simps [of m x y "[_]"] new_PathNode_def)

lemma self_entries_findPath:
  assumes "self_entries_ok (pathCache m)"
  shows "self_entries_ok (pathCache (snd (findPath m sx sy ex ey force)))"
proof (cases "if force then None else pathCache m (sx, sy, ex, ey)")
  case (Some r)
  then show ?thesis using assms by (simp add: findPath_def)
next
  case None
  then have "pathCache (snd (findPath m sx sy ex ey force))
               = (pathCache m)((sx, sy, ex, ey) \<mapsto> search m sx sy ex ey)"
    by (simp add: findPath_def Let_def)
  then show ?thesis
    using assms search_same_ends by (auto simp: self_entries_ok_def)
qed

lemma self_entries_check_spawns:
  assumes "self_entries_ok (pathCache m)"
  shows "self_entries_ok (pathCache (snd (check_spawns m base spawns)))"
  using assms
proof (induction spawns arbitrary: m)
  case Nil
  then show ?case by simp
next
  case (Cons s spawns)
  let ?m' = "snd (findPath m (fst s) (snd s) (fst base) (snd base) True)"
  have ok: "self_entries_ok (pathCache ?m')"
    using Cons.prems by (rule self_entries_findPath)
  then have "self_entries_ok (pathCache (snd (check_spawns ?m' base spawns)))"
    by (rule Cons.IH)
  with ok show ?case
    by (cases "findPath m (fst s) (snd s) (fst base) (snd base) True")
       (auto split: option.splits)
qed

lemma pathCache_write_cell [simp]: "pathCache (write_cell x y t m) = pathCache m"
  by (simp add: write_cell_def)

lemma pathCache_console_debug [simp]: "pathCache (console_debug s a m) = pathCache m"
  by (simp add: console_debug_def)

lemma pathCache_console_error [simp]: "pathCache (console_error s a m) = pathCache m"
  by (simp add: console_error_def)

lemma self_entries_canPlaceTower:
  assumes "self_entries_ok (pathCache m)"
  shows "self_entries_ok (pathCache (snd (canPlaceTower m x y)))"
proof (cases "isCellPassable m x y False")
  case False
  then show ?thesis using assms by (simp add: canPlaceTower_def)
next
  case True
  let ?m1 = "write_cell x y CELL_TOWER m"
  show ?thesis
  proof (cases "playerBase m")
    case None
    then show ?thesis using True assms by (simp add: canPlaceTower_def Let_def write_cell_def)
  next
    case (Some base)
    have pb: "playerBase ?m1 = Some base" using Some by (simp add: write_cell_def)
    obtain ok m2 where cs: "check_spawns ?m1 base (enemySpawns ?m1) = (ok, m2)"
      by (cases "check_spawns ?m1 base (enemySpawns ?m1)")
    have "self_entries_ok (pathCache (snd (check_spawns ?m1 base (enemySpawns ?m1))))"
      by (rule self_entries_check_spawns) (simp add: assms)
    then have "self_entries_ok (pathCache m2)" using cs by simp
    then show ?thesis using True pb cs
      by (simp add: canPlaceTower_def Let_def)
  qed
qed

lemma self_entries_empty [simp]: "self_entries_ok Map.empty"
  by (simp add: self_entries_ok_def)

lemma self_entries_setCellType:
  "self_entries_ok (pathCache m) \<Longrightarrow> self_entries_ok (pathCache (setCellType m x y t))"
  by (simp add: setCellType_def)

lemma stable_self_entries: "listener_stable (\<lambda>m. self_entries_ok (pathCache m))"
  by (simp add: listener_stable_def self_entries_findPath)

lemma self_entries_emit:
  "self_entries_ok (pathCache m) \<Longrightarrow> self_entries_ok (pathCache (emit e m))"
  using stable_emit [OF stable_self_entries] .

lemma self_entries_perform:
  assumes "self_entries_ok (pathCache m)"
  shows "self_entries_ok (pathCache (perform c m))"
proof (cases c)
  case (RegisterBase x y)
  have "self_entries_ok (pathCache (setCellType (m\<lparr>playerBase := Some (x, y)\<rparr>) x y CELL_BASE))"
    by (rule self_entries_setCellType) (simp add: assms)
  then show ?thesis using RegisterBase assms by (simp add: setPlayerBase_def)
next
  case (RegisterSpawn x y)
  have "self_entries_ok (pathCache (setCellType (m\<lparr>enemySpawns := enemySpawns m @ [(x, y)]\<rparr>) x y CELL_SPAWN))"
    by (rule self_entries_setCellType) (simp add: assms)
  then show ?thesis using RegisterSpawn assms by (simp add: addEnemySpawn_def)
next
  case (RegisterObstacle x y)
  then show ?thesis using assms by (simp add: addObstacle_def self_entries_setCellType)
next
  case (PlaceTower x y)
  obtain ok m1 where cp: "canPlaceTower m x y = (ok, m1)" by (cases "canPlaceTower m x y")
  then have "self_entries_ok (pathCache m1)"
    using self_entries_canPlaceTower [OF assms, of x y] by simp
  then show ?thesis using PlaceTower cp
    by (cases ok) (simp_all add: placeTower_def self_entries_emit)
next
  case (RemoveTower x y)
  then show ?thesis using assms by (simp add: removeTower_def self_entries_emit)
next
  case (SetCellState x y t)
  then show ?thesis using assms by (simp add: self_entries_setCellType)
next
  case (CanPlaceTower x y)
  then show ?thesis using assms by (simp add: self_entries_canPlaceTower)
next
  case (FindPath sx sy ex ey force)
  then show ?thesis using assms by (simp add: self_entries_findPath)
next
  case (Collaborators ls)
  then show ?thesis using assms by simp
qed

lemma self_entries_run:
  "self_entries_ok (pathCache m) \<Longrightarrow> self_entries_ok (pathCache (run calls m))"
  by (induction calls arbitrary: m) (simp_all add: run_def self_entries_perform)

text \<open>
  C10.  In every state reached from a fresh object by calls of the class, and for every
  coordinate \<open>(x, y)\<close>, inside the grid or not and whatever the cell holds, \<open>findPath\<close>
  from \<open>(x, y)\<close> to \<open>(x, y)\<close> returns the one-cell path \<open>[(x, y)]\<close>, with the cache read
  or bypassed: the start node is tested against the goal before any cell is looked at, and
  the cache never holds anything else for equal endpoints.
\<close>

theorem findPath_to_itself:
  "fst (findPath (run calls (init_MapSystem w h em)) x y x y b) = Some [(x, y)]"
proof -
  let ?m = "run calls (init_MapSystem w h em)"
  have ok: "self_entries_ok (pathCache ?m)"
    by (rule self_entries_run) (simp add: init_MapSystem_def)
  show ?thesis
  proof (cases "if b then None else pathCache ?m (x, y, x, y)")
    case None
    then show ?thesis by (simp add: findPath_def Let_def search_same_ends)
  next
    case (Some r)
    then have "pathCache ?m (x, y, x, y) = Some r" by (simp split: if_splits)
    then have "r = Some [(x, y)]" using ok by (simp add: self_entries_ok_def)
    with Some show ?thesis by (simp add: findPath_def Let_def)
  qed
qed

theorem findPath_to_itself_witness:
  "fst (findPath (run [RegisterBase 2 1, RegisterObstacle 1 0, FindPath 1 0 1 0 True]
                   (init_MapSystem 3 3 False)) 1 0 1 0 False) = Some [(1, 0)]
   \<and> getCellType (run [RegisterBase 2 1, RegisterObstacle 1 0, FindPath 1 0 1 0 True]
                      (init_MapSystem 3 3 False)) 1 0 = CELL_OBSTACLE
   \<and> fst (findPath (init_MapSystem 3 3 False) (- 4) 7 (- 4) 7 True) = Some [(- 4, 7)]"
proof -
  have "getCellType (run [RegisterBase 2 1, RegisterObstacle 1 0, FindPath 1 0 1 0 True]
                      (init_MapSystem 3 3 False)) 1 0 = CELL_OBSTACLE"
    by code_simp
  then show ?thesis
    using findPath_to_itself [of "[RegisterBase 2 1, RegisterObstacle 1 0, FindPath 1 0 1 0 True]" 3 3 False 1 0 False]
          findPath_to_itself [of "[]" 3 3 False "- 4" 7 True]
    by (simp add: run_def)
qed

section \<open>The number of base cells\<close>

lemma count_list_update_le:
  "count_list (xs[i := v]) a \<le> count_list xs a + (if v = a then 1 else 0)"
proof (induction xs arbitrary: i)
  case Nil
  show ?case by simp
next
  case (Cons x xs)
  show ?case
  proof (cases i)
    case 0
    then show ?thesis by simp
  next
    case (Suc j)
    then show ?thesis using Cons.IH [of j] by simp
  qed
qed

lemma sum_list_map_update_le:
  fixes f :: "'a \<Rightarrow> nat"
  assumes "i < length rows" "f r \<le> f (rows ! i) + k"
  shows "sum_list (map f (rows[i := r])) \<le> sum_list (map f rows) + k"
  using assms
proof (induction rows arbitrary: i)
  case Nil
  then show ?case by simp
next
  case (Cons row rows)
  show ?case
  proof (cases i)
    case 0
    then show ?thesis using Cons.prems by simp
  next
    case (Suc j)
    then have "sum_list (map f (rows[j := r])) \<le> sum_list (map f rows) + k"
      using Cons.prems by (intro Cons.IH) simp_all
    then show ?thesis using Suc by simp
  qed
qed

lemma count_cells_write_cell:
  "count_cells (write_cell x y t m) a \<le> count_cells m a + (if t = a then 1 else 0)"
proof (cases "nat y < length (grid m)")
  case True
  have "sum_list (map (\<lambda>row. count_list row a) ((grid m)[nat y := (grid m ! nat y)[nat x := t]]))
          \<le> sum_list (map (\<lambda>row. count_list row a) (grid m)) + (if t = a then 1 else 0)"
    using True by (rule sum_list_map_update_le) (rule count_list_update_le)
  then show ?thesis by (simp add: count_cells_def write_cell_def)
next
  case False
  then show ?thesis by (simp add: count_cells_def write_cell_def list_update_beyond)
qed

lemma count_cells_grid: "grid m' = grid m \<Longrightarrow> count_cells m' a = count_cells m a"
  by (simp add: count_cells_def)

lemma count_cells_setCellType:
  "count_cells (setCellType m x y t) a \<le> count_cells m a + (if t = a then 1 else 0)"
proof (cases "isValidGridCoords m x y")
  case True
  have "count_cells (setCellType m x y t) a = count_cells (write_cell x y t m) a"
    using True by (intro count_cells_grid) (simp add: setCellType_def emit_def invalidatePathCache_def)
  then show ?thesis using count_cells_write_cell [of x y t m a] by simp
next
  case False
  then show ?thesis by (simp add: setCellType_def)
qed

lemma grid_canPlaceTower: "grid (snd (canPlaceTower m x y)) = grid m"
proof -
  obtain pc co where "snd (canPlaceTower m x y) = m\<lparr>pathCache := pc, console := co\<rparr>"
    using canPlaceTower_frame by blast
  then show ?thesis by simp
qed

lemma grid_findPath: "grid (snd (findPath m sx sy ex ey force)) = grid m"
proof -
  obtain pc where "snd (findPath m sx sy ex ey force) = m\<lparr>pathCache := pc\<rparr>"
    using findPath_frame by blast
  then show ?thesis by simp
qed

lemma count_cells_perform:
  "count_cells (perform c m) CELL_BASE \<le> count_cells m CELL_BASE + (if writes_base c then 1 else 0)"
proof (cases c)
  case (RegisterBase x y)
  have "count_cells (snd (setPlayerBase m x y)) CELL_BASE
          = count_cells (setCellType m x y CELL_BASE) CELL_BASE"
    by (intro count_cells_grid)
       (simp add: setPlayerBase_def console_log_def console_error_def setCellType_def emit_def
          invalidatePathCache_def write_cell_def isValidGridCoords_def)
  then show ?thesis using RegisterBase count_cells_setCellType [of m x y CELL_BASE CELL_BASE] by simp
next
  case (RegisterSpawn x y)
  have "count_cells (snd (addEnemySpawn m x y)) CELL_BASE
          = count_cells (setCellType m x y CELL_SPAWN) CELL_BASE"
    by (intro count_cells_grid)
       (simp add: addEnemySpawn_def console_log_def console_error_def setCellType_def emit_def
          invalidatePathCache_def write_cell_def isValidGridCoords_def)
  then show ?thesis using RegisterSpawn count_cells_setCellType [of m x y CELL_SPAWN CELL_BASE] by simp
next
  case (RegisterObstacle x y)
  have "count_cells (snd (addObstacle m x y)) CELL_BASE
          = count_cells (if isValidGridCoords m x y \<and> cell m x y = CELL_EMPTY
                         then setCellType m x y CELL_OBSTACLE else m) CELL_BASE"
    by (intro count_cells_grid) (simp add: addObstacle_def console_log_def)
  then show ?thesis
    using RegisterObstacle count_cells_setCellType [of m x y CELL_OBSTACLE CELL_BASE] by simp
next
  case (PlaceTower x y)
  obtain ok m1 where cp: "canPlaceTower m x y = (ok, m1)" by (cases "canPlaceTower m x y")
  then have g1: "count_cells m1 CELL_BASE = count_cells m CELL_BASE"
    using grid_canPlaceTower [of m x y] by (simp add: count_cells_def)
  have "count_cells (snd (placeTower m x y)) CELL_BASE
          = count_cells (if ok then setCellType m1 x y CELL_TOWER else m1) CELL_BASE"
    using cp by (intro count_cells_grid)
                (cases ok; simp add: placeTower_def grid_emit invalidatePathCache_def console_log_def)
  then show ?thesis
    using PlaceTower g1 count_cells_setCellType [of m1 x y CELL_TOWER CELL_BASE] by simp
next
  case (RemoveTower x y)
  have "count_cells (snd (removeTower m x y)) CELL_BASE
          = count_cells (if isValidGridCoords m x y \<and> cell m x y = CELL_TOWER
                         then setCellType m x y CELL_EMPTY else m) CELL_BASE"
    by (intro count_cells_grid) (simp add: removeTower_def grid_emit invalidatePathCache_def)
  then show ?thesis
    using RemoveTower count_cells_setCellType [of m x y CELL_EMPTY CELL_BASE] by simp
next
  case (SetCellState x y t)
  then show ?thesis using count_cells_setCellType [of m x y t CELL_BASE] by simp
next
  case (CanPlaceTower x y)
  then show ?thesis using grid_canPlaceTower [of m x y] by (simp add: count_cells_def)
next
  case (FindPath sx sy ex ey force)
  then show ?thesis using grid_findPath [of m sx sy ex ey force] by (simp add: count_cells_def)
next
  case (Collaborators ls)
  then show ?thesis by (simp add: count_cells_def)
qed

lemma count_cells_run:
  "count_cells (run calls m) CELL_BASE \<le> count_cells m CELL_BASE + base_writes calls"
proof (induction calls arbitrary: m)
  case Nil
  show ?case by (simp add: run_def base_writes_def)
next
  case (Cons c calls)
  have "count_cells (run calls (perform c m)) CELL_BASE
          \<le> count_cells (perform c m) CELL_BASE + base_writes calls"
    by (rule Cons.IH)
  also have "\<dots> \<le> count_cells m CELL_BASE + (if writes_base c then 1 else 0) + base_writes calls"
    using count_cells_perform [of c m] by simp
  finally show ?case by (auto simp: run_def base_writes_def)
qed

lemma count_cells_init: "count_cells (init_MapSystem w h em) CELL_BASE = 0"
  by (simp add: count_cells_def init_MapSystem_def)

text \<open>
  C7, as the claim states it, does not hold: two \<open>setPlayerBase\<close> calls at different cells
  leave both cells with type 3 (the first one is not written back), and so do two
  \<open>setCellType\<close> calls writing 3.
\<close>

theorem two_base_cells_counterexample:
  "getCellType (run [RegisterBase 0 0, RegisterBase 1 0] (init_MapSystem 2 1 False)) 0 0 = CELL_BASE
   \<and> getCellType (run [RegisterBase 0 0, RegisterBase 1 0] (init_MapSystem 2 1 False)) 1 0 = CELL_BASE
   \<and> count_cells (run [RegisterBase 0 0, RegisterBase 1 0] (init_MapSystem 2 1 False)) CELL_BASE = 2
   \<and> count_cells (run [SetCellState 0 0 CELL_BASE, SetCellState 1 0 CELL_BASE] (init_MapSystem 2 1 False))
         CELL_BASE = 2"
  by code_simp

text \<open>
  C7, amended.  In every state reached from a fresh object by a sequence of calls of the
  class of which at most one writes the base type (a \<open>setPlayerBase\<close>, or a \<open>setCellType\<close>
  with type 3), at most one cell of the grid has type 3.
\<close>

theorem at_most_one_base_cell:
  "base_writes calls \<le> 1 \<Longrightarrow> count_cells (run calls (init_MapSystem w h em)) CELL_BASE \<le> 1"
  using count_cells_run [of calls "init_MapSystem w h em"] by (simp add: count_cells_init)

theorem at_most_one_base_cell_witness:
  "base_writes [RegisterBase 2 1, RegisterSpawn 0 1, RegisterObstacle 1 0, PlaceTower 1 1, RemoveTower 1 1,
                SetCellState 0 0 CELL_OBSTACLE] \<le> 1
   \<and> count_cells (run [RegisterBase 2 1, RegisterSpawn 0 1, RegisterObstacle 1 0, PlaceTower 1 1,
                        RemoveTower 1 1, SetCellState 0 0 CELL_OBSTACLE] (init_MapSystem 3 3 False)) CELL_BASE \<le> 1"
proof -
  have h: "base_writes [RegisterBase 2 1, RegisterSpawn 0 1, RegisterObstacle 1 0, PlaceTower 1 1,
                        RemoveTower 1 1, SetCellState 0 0 CELL_OBSTACLE] \<le> 1"
    by (simp add: base_writes_def)
  show ?thesis using h at_most_one_base_cell [OF h, of 3 3 False] by simp
qed

section \<open>The search on a grid of empty cells\<close>

lemma passable_all_empty:
  assumes "wf_grid m" "all_empty m"
  shows "isCellPassable m x y True \<longleftrightarrow> (x, y) \<in> cells m"
proof (cases "isValidGridCoords m x y")
  case False
  then show ?thesis by (auto simp: isCellPassable_def isValidGridCoords_def cells_def)
next
  case True
  have "grid m ! nat y \<in> set (grid m)" "grid m ! nat y ! nat x \<in> set (grid m ! nat y)"
    using wf_grid_rows [OF assms(1) True] by simp_all
  then have "cell m x y = CELL_EMPTY"
    using assms(2) by (simp add: all_empty_def cell_def)
  then show ?thesis using True by (auto simp: isCellPassable_def isValidGridCoords_def cells_def)
qed

lemma set_neighbors: "set (neighbors cur) = adjacent (node_pos cur)"
  by (auto simp: neighbors_def adjacent_def node_pos_def)

lemma heuristic_adjacent: "c' \<in> adjacent c \<Longrightarrow> heuristic S c' \<le> heuristic S c + 1"
  by (auto simp: adjacent_def heuristic_def)

lemma heuristic_self [simp]: "heuristic S S = 0"
  by (simp add: heuristic_def)

lemma heuristic_nonneg: "0 \<le> heuristic a b"
  by (simp add: heuristic_def)

lemma heuristic_triangle: "heuristic S E \<le> heuristic S c + heuristic c E"
  by (simp add: heuristic_def)

lemma heuristic_zero: "heuristic c E = 0 \<longleftrightarrow> c = E"
  by (cases c; cases E) (auto simp: heuristic_def)

lemma step_toward:
  assumes "c \<noteq> E" "on_shortest S E c"
  shows "\<exists>c' \<in> adjacent c. on_shortest S E c' \<and> heuristic S c' = heuristic S c + 1
           \<and> heuristic c' E = heuristic c E - 1"
proof -
  obtain cx cy where c: "c = (cx, cy)" by (cases c)
  obtain ex ey where E: "E = (ex, ey)" by (cases E)
  obtain sx sy where S: "S = (sx, sy)" by (cases S)
  let ?c' = "if cx < ex then (cx + 1, cy) else if ex < cx then (cx - 1, cy)
             else if cy < ey then (cx, cy + 1) else (cx, cy - 1)"
  have adj: "?c' \<in> adjacent c" by (simp add: adjacent_def c)
  have closer: "heuristic ?c' E = heuristic c E - 1"
    using assms(1) by (auto simp: heuristic_def c E)
  have "heuristic S ?c' \<le> heuristic S c + 1" using adj by (rule heuristic_adjacent)
  moreover have "heuristic S E \<le> heuristic S ?c' + heuristic ?c' E" by (rule heuristic_triangle)
  ultimately have far: "heuristic S ?c' = heuristic S c + 1"
    using closer assms(2) by (simp add: on_shortest_def)
  have "on_shortest S E ?c'"
    using far closer assms(2) by (simp add: on_shortest_def)
  with adj far closer show ?thesis by blast
qed

lemma on_shortest_in_cells:
  assumes "on_shortest S E c" "S \<in> cells m" "E \<in> cells m"
  shows "c \<in> cells m"
proof -
  obtain cx cy where c: "c = (cx, cy)" by (cases c)
  obtain ex ey where E: "E = (ex, ey)" by (cases E)
  obtain sx sy where S: "S = (sx, sy)" by (cases S)
  have "\<bar>sx - cx\<bar> + \<bar>sy - cy\<bar> + (\<bar>cx - ex\<bar> + \<bar>cy - ey\<bar>) = \<bar>sx - ex\<bar> + \<bar>sy - ey\<bar>"
    using assms(1) by (simp add: on_shortest_def heuristic_def c E S)
  then have "(min sx ex \<le> cx \<and> cx \<le> max sx ex) \<and> (min sy ey \<le> cy \<and> cy \<le> max sy ey)"
    by linarith
  then show ?thesis
    using assms(2,3) by (auto simp: cells_def c E S)
qed

lemma relax_first_keeps:
  assumes "n \<in> set ns" "find (\<lambda>n. node_pos n = p) ns \<noteq> Some n"
  shows "n \<in> set (relax_first p cur gs ns)"
  using assms by (induction ns) (auto split: if_splits)

lemma relax_first_creates:
  assumes "find (\<lambda>n. node_pos n = p) ns = Some nn"
  shows "PathNode (node_x nn) (node_y nn) (Some cur) gs (node_h nn) (gs + node_h nn)
           \<in> set (relax_first p cur gs ns)"
  using assms by (induction ns) (auto split: if_splits)

lemma relax_first_nodes:
  assumes "n' \<in> set (relax_first p cur gs ns)"
  shows "n' \<in> set ns
         \<or> (\<exists>nn \<in> set ns. node_pos nn = p
               \<and> n' = PathNode (node_x nn) (node_y nn) (Some cur) gs (node_h nn) (gs + node_h nn))"
  using assms by (induction ns) (auto split: if_splits)

lemma find_pos_Some:
  assumes "find (\<lambda>n. node_pos n = p) ns = Some nn"
  shows "nn \<in> set ns" "node_pos nn = p"
  using assms by (auto simp: find_Some_iff)

text \<open>A node linked below \<open>cur\<close> with cost \<open>node_g cur + 1\<close> is in order when \<open>cur\<close> is.\<close>

lemma node_ok_child:
  assumes cur: "node_ok S E cur" and adj: "p \<in> adjacent (node_pos cur)"
    and n': "n' = PathNode (fst p) (snd p) (Some cur) (node_g cur + 1) hh (node_g cur + 1 + hh)"
    and hh: "hh = heuristic p E"
  shows "node_ok S E n'"
proof -
  have g0: "0 \<le> node_g cur"
    using cur heuristic_nonneg [of S "node_pos cur"] by (simp add: node_ok_def)
  have "heuristic S p \<le> heuristic S (node_pos cur) + 1"
    using adj by (rule heuristic_adjacent)
  then have "heuristic S p \<le> node_g cur + 1"
    using cur by (simp add: node_ok_def)
  moreover have "length (reconstruct n') = nat (node_g cur + 1) + 1"
    using cur g0 by (simp add: n' node_ok_def nat_add_distrib)
  ultimately show ?thesis
    by (simp add: node_ok_def n' hh node_pos_def)
qed

lemma node_ok_visit:
  assumes all: "\<forall>n \<in> set ns. node_ok S (ex, ey) n"
    and cur: "node_ok S (ex, ey) cur" and adj: "p \<in> adjacent (node_pos cur)"
  shows "\<forall>n \<in> set (visit_neighbor m ex ey cur cl p ns). node_ok S (ex, ey) n"
proof (cases "isCellPassable m (fst p) (snd p) True \<and> p \<notin> cl")
  case False
  then show ?thesis using all by (auto simp: visit_neighbor_def)
next
  case True
  show ?thesis
  proof (cases "find (\<lambda>n. node_pos n = p) ns")
    case None
    have "node_ok S (ex, ey)
            (new_PathNode (fst p) (snd p) (Some cur) (node_g cur + 1) (heuristic p (ex, ey)))"
      by (rule node_ok_child [OF cur adj]) (simp_all add: new_PathNode_def)
    then show ?thesis using True None all by (simp add: visit_neighbor_def Let_def)
  next
    case (Some nn)
    show ?thesis
    proof (cases "node_g cur + 1 < node_g nn")
      case False
      then show ?thesis using True Some all by (simp add: visit_neighbor_def Let_def)
    next
      case less: True
      have "node_ok S (ex, ey) n'" if "n' \<in> set (relax_first p cur (node_g cur + 1) ns)" for n'
      proof -
        from relax_first_nodes [OF that] show ?thesis
        proof
          assume "n' \<in> set ns"
          then show ?thesis using all by blast
        next
          assume "\<exists>nn \<in> set ns. node_pos nn = p
                    \<and> n' = PathNode (node_x nn) (node_y nn) (Some cur) (node_g cur + 1) (node_h nn)
                             (node_g cur + 1 + node_h nn)"
          then obtain n0 where n0: "n0 \<in> set ns" "node_pos n0 = p"
            "n' = PathNode (node_x n0) (node_y n0) (Some cur) (node_g cur + 1) (node_h n0)
                    (node_g cur + 1 + node_h n0)"
            by blast
          have "node_h n0 = heuristic p (ex, ey)"
            using all n0(1,2) by (auto simp: node_ok_def)
          moreover have "node_x n0 = fst p" "node_y n0 = snd p"
            using n0(2) by (auto simp: node_pos_def)
          ultimately show ?thesis
            using node_ok_child [OF cur adj, of n' "node_h n0"] n0(3) by simp
        qed
      qed
      then show ?thesis using True Some less by (simp add: visit_neighbor_def Let_def)
    qed
  qed
qed

lemma reached_visit:
  assumes r: "reached S ns c" and all: "\<forall>n \<in> set ns. node_ok S (ex, ey) n"
    and le: "heuristic S p \<le> node_g cur + 1"
  shows "reached S (visit_neighbor m ex ey cur cl p ns) c"
proof -
  obtain n where n: "n \<in> set ns" "node_pos n = c" "node_g n = heuristic S c"
    using r by (auto simp: reached_def)
  have "n \<in> set (visit_neighbor m ex ey cur cl p ns)"
  proof (cases "isCellPassable m (fst p) (snd p) True \<and> p \<notin> cl")
    case False
    then show ?thesis using n(1) by (auto simp: visit_neighbor_def)
  next
    case True
    show ?thesis
    proof (cases "find (\<lambda>n. node_pos n = p) ns")
      case None
      then show ?thesis using True n(1) by (simp add: visit_neighbor_def Let_def)
    next
      case (Some nn)
      show ?thesis
      proof (cases "node_g cur + 1 < node_g nn")
        case False
        then show ?thesis using True Some n(1) by (simp add: visit_neighbor_def Let_def)
      next
        case less: True
        have "nn \<noteq> n"
        proof
          assume "nn = n"
          then have "c = p" using find_pos_Some(2) [OF Some] n(2) by simp
          then show False using less le n(3) \<open>nn = n\<close> by simp
        qed
        then have "find (\<lambda>n. node_pos n = p) ns \<noteq> Some n" using Some by simp
        then have "n \<in> set (relax_first p cur (node_g cur + 1) ns)"
          using n(1) by (intro relax_first_keeps)
        then show ?thesis using True Some less by (simp add: visit_neighbor_def Let_def)
      qed
    qed
  qed
  then show ?thesis using n(2,3) by (auto simp: reached_def)
qed

lemma reached_visit_new:
  assumes pass: "isCellPassable m (fst p) (snd p) True" and ncl: "p \<notin> cl"
    and all: "\<forall>n \<in> set ns. node_ok S (ex, ey) n"
    and eq: "heuristic S p = node_g cur + 1"
  shows "reached S (visit_neighbor m ex ey cur cl p ns) p"
proof (cases "find (\<lambda>n. node_pos n = p) ns")
  case None
  let ?n = "new_PathNode (fst p) (snd p) (Some cur) (node_g cur + 1) (heuristic p (ex, ey))"
  have "?n \<in> set (visit_neighbor m ex ey cur cl p ns)"
    using pass ncl None by (simp add: visit_neighbor_def Let_def)
  moreover have "node_pos ?n = p" "node_g ?n = heuristic S p"
    using eq by (simp_all add: new_PathNode_def node_pos_def)
  ultimately show ?thesis unfolding reached_def by blast
next
  case (Some nn)
  note nn = find_pos_Some [OF Some]
  show ?thesis
  proof (cases "node_g cur + 1 < node_g nn")
    case False
    moreover have "heuristic S p \<le> node_g nn"
      using all nn by (auto simp: node_ok_def)
    ultimately have "node_g nn = heuristic S p" using eq by simp
    moreover have "nn \<in> set (visit_neighbor m ex ey cur cl p ns)"
      using pass ncl Some False nn(1) by (simp add: visit_neighbor_def Let_def)
    ultimately show ?thesis using nn(2) unfolding reached_def by blast
  next
    case True
    let ?n = "PathNode (node_x nn) (node_y nn) (Some cur) (node_g cur + 1) (node_h nn)
                (node_g cur + 1 + node_h nn)"
    have "?n \<in> set (visit_neighbor m ex ey cur cl p ns)"
      using pass ncl Some True relax_first_creates [OF Some, of cur "node_g cur + 1"]
      by (simp add: visit_neighbor_def Let_def)
    moreover have "node_pos ?n = p" "node_g ?n = heuristic S p"
      using eq nn(2) by (simp_all add: node_pos_def)
    ultimately show ?thesis unfolding reached_def by blast
  qed
qed

lemma child_cost_bound:
  assumes "node_ok S E cur" "q \<in> adjacent (node_pos cur)"
  shows "heuristic S q \<le> node_g cur + 1"
proof -
  have "heuristic S q \<le> heuristic S (node_pos cur) + 1"
    using assms(2) by (rule heuristic_adjacent)
  then show ?thesis using assms(1) by (simp add: node_ok_def)
qed

lemma fold_visit_ok:
  assumes cur: "node_ok S (ex, ey) cur"
  shows "set ps \<subseteq> adjacent (node_pos cur) \<Longrightarrow> \<forall>n \<in> set ns. node_ok S (ex, ey) n
           \<Longrightarrow> \<forall>n \<in> set (fold (visit_neighbor m ex ey cur cl) ps ns). node_ok S (ex, ey) n"
proof (induction ps arbitrary: ns)
  case Nil
  then show ?case by simp
next
  case (Cons q ps)
  have q: "q \<in> adjacent (node_pos cur)" and ps: "set ps \<subseteq> adjacent (node_pos cur)"
    using Cons.prems(1) by auto
  have "\<forall>n \<in> set (visit_neighbor m ex ey cur cl q ns). node_ok S (ex, ey) n"
    using Cons.prems(2) cur q by (rule node_ok_visit)
  then show ?case using Cons.IH [OF ps] by simp
qed

lemma fold_visit_reached:
  assumes cur: "node_ok S (ex, ey) cur"
  shows "set ps \<subseteq> adjacent (node_pos cur) \<Longrightarrow> \<forall>n \<in> set ns. node_ok S (ex, ey) n
           \<Longrightarrow> reached S ns c
           \<Longrightarrow> reached S (fold (visit_neighbor m ex ey cur cl) ps ns) c"
proof (induction ps arbitrary: ns)
  case Nil
  then show ?case by simp
next
  case (Cons q ps)
  have q: "q \<in> adjacent (node_pos cur)" and ps: "set ps \<subseteq> adjacent (node_pos cur)"
    using Cons.prems(1) by auto
  have all': "\<forall>n \<in> set (visit_neighbor m ex ey cur cl q ns). node_ok S (ex, ey) n"
    using Cons.prems(2) cur q by (rule node_ok_visit)
  have "reached S (visit_neighbor m ex ey cur cl q ns) c"
    using Cons.prems(3) Cons.prems(2) child_cost_bound [OF cur q] by (rule reached_visit)
  then show ?case using Cons.IH [OF ps all'] by simp
qed

lemma fold_visit_new:
  assumes cur: "node_ok S (ex, ey) cur"
    and pass: "isCellPassable m (fst p) (snd p) True" and ncl: "p \<notin> cl"
    and eq: "heuristic S p = node_g cur + 1"
  shows "set ps \<subseteq> adjacent (node_pos cur) \<Longrightarrow> \<forall>n \<in> set ns. node_ok S (ex, ey) n
           \<Longrightarrow> p \<in> set ps
           \<Longrightarrow> reached S (fold (visit_neighbor m ex ey cur cl) ps ns) p"
proof (induction ps arbitrary: ns)
  case Nil
  then show ?case by simp
next
  case (Cons q ps)
  have q: "q \<in> adjacent (node_pos cur)" and ps: "set ps \<subseteq> adjacent (node_pos cur)"
    using Cons.prems(1) by auto
  have all': "\<forall>n \<in> set (visit_neighbor m ex ey cur cl q ns). node_ok S (ex, ey) n"
    using Cons.prems(2) cur q by (rule node_ok_visit)
  show ?case
  proof (cases "p \<in> set ps")
    case True
    then show ?thesis using Cons.IH [OF ps all'] by simp
  next
    case False
    then have "p = q" using Cons.prems(3) by simp
    then have "reached S (visit_neighbor m ex ey cur cl q ns) p"
      using reached_visit_new [OF pass ncl Cons.prems(2) eq] by simp
    then show ?thesis using fold_visit_reached [OF cur ps all'] by simp
  qed
qed

lemma some_node_on_target:
  assumes inv: "search_inv S E ns cl"
  shows "\<exists>n \<in> set ns. node_f n = heuristic S E"
proof -
  have walk: "\<exists>n \<in> set ns. node_f n = heuristic S E"
    if "on_shortest S E c" "c \<in> cl \<or> reached S ns c" for c
    using that
  proof (induction "nat (heuristic c E)" arbitrary: c rule: less_induct)
    case less
    show ?case
    proof (cases "reached S ns c")
      case True
      then obtain n where n: "n \<in> set ns" "node_pos n = c" "node_g n = heuristic S c"
        by (auto simp: reached_def)
      then have "node_ok S E n" using inv by (simp add: search_inv_def)
      then have "node_f n = heuristic S E"
        using n(2,3) less.prems(1) by (simp add: node_ok_def on_shortest_def)
      with n(1) show ?thesis by blast
    next
      case False
      then have c: "c \<in> cl" using less.prems(2) by simp
      then have "c \<noteq> E" using inv by (simp add: search_inv_def)
      then obtain c' where c': "c' \<in> adjacent c" "on_shortest S E c'"
          "heuristic S c' = heuristic S c + 1" "heuristic c' E = heuristic c E - 1"
        using step_toward [OF _ less.prems(1)] by blast
      have "0 \<le> heuristic c' E" by (rule heuristic_nonneg)
      then have smaller: "nat (heuristic c' E) < nat (heuristic c E)"
        using c'(4) by simp
      have "c' \<in> cl \<or> reached S ns c'"
        using inv c c'(1,2,3) by (simp add: search_inv_def)
      then show ?thesis using less.hyps [OF smaller c'(2)] by blast
    qed
  qed
  have "on_shortest S E S" by (simp add: on_shortest_def)
  moreover have "S \<in> cl \<or> reached S ns S" using inv by (simp add: search_inv_def)
  ultimately show ?thesis by (rule walk)
qed

lemma sort_key_head_least:
  assumes "sort_key k xs = y # ys"
  shows "set xs = insert y (set ys)" and "\<forall>x \<in> set xs. k y \<le> k x"
proof -
  show s: "set xs = insert y (set ys)"
    using assms by (metis list.simps(15) set_sort)
  have "sorted (map k (y # ys))"
    using assms by (metis sorted_sort_key)
  then show "\<forall>x \<in> set xs. k y \<le> k x"
    by (auto simp: s)
qed

text \<open>
  One round of the loop keeps the invariant, and the node it takes from the open set has
  \<open>g\<close> equal to its distance from the start.
\<close>

lemma search_inv_expand:
  assumes wf: "wf_grid m" and empty: "all_empty m"
    and S: "S \<in> cells m" and E: "(ex, ey) \<in> cells m"
    and inv: "search_inv S (ex, ey) ns cl"
    and sorted: "sort_key node_f ns = cur # rest"
    and ng: "node_pos cur \<noteq> (ex, ey)"
  shows "search_inv S (ex, ey) (fst (expand m ex ey cur rest cl)) (snd (expand m ex ey cur rest cl))"
    and "node_g cur = heuristic S (node_pos cur)"
proof -
  let ?E = "(ex, ey)"
  let ?cl' = "insert (node_pos cur) cl"
  let ?ns' = "fold (visit_neighbor m ex ey cur ?cl') (neighbors cur) rest"
  note head = sort_key_head_least [OF sorted]
  have all: "\<forall>n \<in> set ns. node_ok S ?E n" using inv by (simp add: search_inv_def)
  then have cur: "node_ok S ?E cur" and rest: "\<forall>n \<in> set rest. node_ok S ?E n"
    using head(1) by auto
  obtain n where "n \<in> set ns" "node_f n = heuristic S ?E"
    using some_node_on_target [OF inv] by blast
  then have "node_f cur \<le> heuristic S ?E" using head(2) by auto
  moreover have "heuristic S ?E \<le> heuristic S (node_pos cur) + heuristic (node_pos cur) ?E"
    by (rule heuristic_triangle)
  ultimately have g: "node_g cur = heuristic S (node_pos cur)"
    and on: "on_shortest S ?E (node_pos cur)"
    using cur by (simp_all add: node_ok_def on_shortest_def)
  show "node_g cur = heuristic S (node_pos cur)" by (rule g)
  have nbrs: "set (neighbors cur) \<subseteq> adjacent (node_pos cur)"
    by (simp add: set_neighbors)
  have ok': "\<forall>n \<in> set ?ns'. node_ok S ?E n"
    using cur nbrs rest by (rule fold_visit_ok)
  have keep: "c \<in> ?cl' \<or> reached S ?ns' c" if before: "c \<in> cl \<or> reached S ns c" for c
  proof (cases "c \<in> cl")
    case True
    then show ?thesis by simp
  next
    case False
    then obtain n where n: "n \<in> set ns" "node_pos n = c" "node_g n = heuristic S c"
      using before by (auto simp: reached_def)
    show ?thesis
    proof (cases "n = cur")
      case True
      then show ?thesis using n(2) by simp
    next
      case False
      then have "reached S rest c" using n head(1) by (auto simp: reached_def)
      then have "reached S ?ns' c"
        using fold_visit_reached [OF cur nbrs rest] by blast
      then show ?thesis by simp
    qed
  qed
  have closed_ok: "\<forall>c \<in> ?cl'. on_shortest S ?E c \<and> c \<noteq> ?E"
    using inv on ng by (simp add: search_inv_def)
  have frontier: "c' \<in> ?cl' \<or> reached S ?ns' c'"
    if c: "c \<in> ?cl'" and c': "c' \<in> adjacent c" "on_shortest S ?E c'"
      "heuristic S c' = heuristic S c + 1" for c c'
  proof (cases "c \<in> cl")
    case True
    then have "c' \<in> cl \<or> reached S ns c'"
      using inv c' by (simp add: search_inv_def)
    then show ?thesis by (rule keep)
  next
    case False
    then have c_cur: "c = node_pos cur" using c by simp
    show ?thesis
    proof (cases "c' \<in> ?cl'")
      case True
      then show ?thesis by simp
    next
      case False
      have "c' \<in> cells m" using c'(2) S E by (rule on_shortest_in_cells)
      then have pass: "isCellPassable m (fst c') (snd c') True"
        using passable_all_empty [OF wf empty, of "fst c'" "snd c'"] by simp
      have eq: "heuristic S c' = node_g cur + 1" using c'(3) c_cur g by simp
      have "c' \<in> set (neighbors cur)" using c'(1) c_cur by (simp add: set_neighbors)
      then have "reached S ?ns' c'"
        using fold_visit_new [OF cur pass False eq nbrs rest] by blast
      then show ?thesis by simp
    qed
  qed
  have start: "S \<in> ?cl' \<or> reached S ?ns' S"
    using inv by (intro keep) (simp add: search_inv_def)
  show "search_inv S ?E (fst (expand m ex ey cur rest cl)) (snd (expand m ex ey cur rest cl))"
    unfolding search_inv_def expand_def Let_def fst_conv snd_conv
    using ok' closed_ok frontier start by blast
qed

lemma findPath_loop_empty_grid:
  assumes "wf_grid m" "all_empty m" "S \<in> cells m" "(ex, ey) \<in> cells m"
    and "search_inv S (ex, ey) ns cl"
  shows "\<exists>p. findPath_loop m ex ey ns cl = Some p \<and> length p = nat (heuristic S (ex, ey)) + 1"
  using assms
proof (induction m ex ey ns cl rule: findPath_loop.induct)
  case (1 m endX endY openSet closedSet)
  note unfold = findPath_loop.simps [of m endX endY openSet closedSet]
  note inv = "1.prems"(5)
  obtain n where "n \<in> set openSet" using some_node_on_target [OF inv] by blast
  then have "sort_key node_f openSet \<noteq> []" by (metis empty_iff set_sort list.set(1))
  then obtain cur rest where sorted: "sort_key node_f openSet = cur # rest"
    by (cases "sort_key node_f openSet") auto
  note head = sort_key_head_least [OF sorted]
  have cur: "node_ok S (endX, endY) cur"
    using inv head(1) by (simp add: search_inv_def)
  show ?case
  proof (cases "node_x cur = endX \<and> node_y cur = endY")
    case True
    then have pos: "node_pos cur = (endX, endY)" by (simp add: node_pos_def)
    obtain n where n: "n \<in> set openSet" "node_f n = heuristic S (endX, endY)"
      using some_node_on_target [OF inv] by blast
    then have "node_f cur \<le> heuristic S (endX, endY)" using head(2) by auto
    then have "node_g cur = heuristic S (endX, endY)"
      using cur pos by (simp add: node_ok_def)
    then have "length (rev (reconstruct cur)) = nat (heuristic S (endX, endY)) + 1"
      using cur by (simp add: node_ok_def)
    then show ?thesis using sorted True by (simp add: unfold)
  next
    case False
    then have ng: "node_pos cur \<noteq> (endX, endY)" by (auto simp: node_pos_def)
    have inv': "search_inv S (endX, endY) (fst (expand m endX endY cur rest closedSet))
                  (snd (expand m endX endY cur rest closedSet))"
      using "1.prems"(1-4) inv sorted ng by (rule search_inv_expand(1))
    have "\<exists>p. findPath_loop m endX endY (fst (expand m endX endY cur rest closedSet))
                 (snd (expand m endX endY cur rest closedSet)) = Some p
               \<and> length p = nat (heuristic S (endX, endY)) + 1"
      using sorted False "1.prems"(1-4) inv' by (rule "1.IH")
    then show ?thesis by (simp add: unfold sorted False)
  qed
qed

lemma search_inv_start:
  "search_inv (sx, sy) E [new_PathNode sx sy None 0 (heuristic (sx, sy) E)] {}"
  by (simp add: search_inv_def node_ok_def reached_def new_PathNode_def node_pos_def)

text \<open>
  On a grid of the constructor's shape whose cells are all empty, the search between two
  cells of the grid returns a path of one cell more than their Manhattan distance; so does
  \<open>findPath\<close> when it bypasses the cache or finds no entry for the endpoints.
\<close>

lemma search_empty_grid:
  assumes "wf_grid m" "all_empty m" "isValidGridCoords m sx sy" "isValidGridCoords m ex ey"
  shows "\<exists>p. search m sx sy ex ey = Some p \<and> length p = nat (\<bar>sx - ex\<bar> + \<bar>sy - ey\<bar>) + 1"
proof -
  have "(sx, sy) \<in> cells m" "(ex, ey) \<in> cells m"
    using assms(3,4) by (simp_all add: isValidGridCoords_def cells_def)
  then have "\<exists>p. findPath_loop m ex ey [new_PathNode sx sy None 0 (heuristic (sx, sy) (ex, ey))] {} = Some p
               \<and> length p = nat (heuristic (sx, sy) (ex, ey)) + 1"
    using assms(1,2) search_inv_start by (intro findPath_loop_empty_grid)
  then show ?thesis by (simp add: search_def heuristic_def)
qed

lemma findPath_empty_grid:
  assumes "wf_grid m" "all_empty m" "isValidGridCoords m sx sy" "isValidGridCoords m ex ey"
    and "force \<or> pathCache m (sx, sy, ex, ey) = None"
  shows "\<exists>p. fst (findPath m sx sy ex ey force) = Some p
           \<and> length p = nat (\<bar>sx - ex\<bar> + \<bar>sy - ey\<bar>) + 1"
proof -
  have "fst (findPath m sx sy ex ey force) = search m sx sy ex ey"
    using assms(5) by (auto simp: findPath_def Let_def)
  then show ?thesis using search_empty_grid [OF assms(1-4)] by simp
qed

lemma all_empty_init: "all_empty (init_MapSystem w h em)"
  by (auto simp: all_empty_def init_MapSystem_def)

lemma findPath_fresh_grid:
  assumes "0 \<le> sx" "sx < int w" "0 \<le> sy" "sy < int h" "0 \<le> ex" "ex < int w" "0 \<le> ey" "ey < int h"
  shows "\<exists>p. fst (findPath (init_MapSystem w h em) sx sy ex ey force) = Some p
           \<and> length p = nat (\<bar>sx - ex\<bar> + \<bar>sy - ey\<bar>) + 1"
proof (rule findPath_empty_grid)
  show "wf_grid (init_MapSystem w h em)" by (rule wf_grid_init)
  show "all_empty (init_MapSystem w h em)" by (rule all_empty_init)
  show "isValidGridCoords (init_MapSystem w h em) sx sy"
    using assms by (simp add: isValidGridCoords_def init_MapSystem_def)
  show "isValidGridCoords (init_MapSystem w h em) ex ey"
    using assms by (simp add: isValidGridCoords_def init_MapSystem_def)
  show "force \<or> pathCache (init_MapSystem w h em) (sx, sy, ex, ey) = None"
    by (simp add: init_MapSystem_def)
qed

section \<open>A stale entry on a grid of empty cells\<close>

text \<open>
  C5.  On the fresh 5 by 1 grid \<open>findPath(0, 0, 4, 0)\<close> returns
  \<open>[(0,0), (1,0), (2,0), (3,0), (4,0)]\<close>.  On the 3 by 3 grid of \<open>emptied_scenario\<close> every
  cell is empty and a search from (0, 1) to (2, 1) finds the three-cell path, but the
  placement check made before has left, under these endpoints, the path it found around
  its simulated tower at (1, 1): \<open>findPath(0, 1, 2, 1)\<close> returns that path of five cells,
  where one more than the Manhattan distance is three.
\<close>

theorem stale_detour_on_empty_grid:
  "grid (emptied_scenario em) = [[0, 0, 0], [0, 0, 0], [0, 0, 0]]
   \<and> fst (findPath (emptied_scenario em) 0 1 2 1 False) = Some [(0, 1), (0, 0), (1, 0), (2, 0), (2, 1)]
   \<and> search (emptied_scenario em) 0 1 2 1 = Some [(0, 1), (1, 1), (2, 1)]
   \<and> fst (findPath (init_MapSystem 5 1 em) 0 0 4 0 False) = Some [(0, 0), (1, 0), (2, 0), (3, 0), (4, 0)]"
proof -
  have "grid (emptied_scenario True) = [[0, 0, 0], [0, 0, 0], [0, 0, 0]]"
       "grid (emptied_scenario False) = [[0, 0, 0], [0, 0, 0], [0, 0, 0]]"
    by code_simp+
  then have a: "grid (emptied_scenario em) = [[0, 0, 0], [0, 0, 0], [0, 0, 0]]"
    by (cases em) simp_all
  have "fst (findPath (emptied_scenario True) 0 1 2 1 False) = Some [(0, 1), (0, 0), (1, 0), (2, 0), (2, 1)]"
       "fst (findPath (emptied_scenario False) 0 1 2 1 False) = Some [(0, 1), (0, 0), (1, 0), (2, 0), (2, 1)]"
    by code_simp+
  then have b: "fst (findPath (emptied_scenario em) 0 1 2 1 False)
                  = Some [(0, 1), (0, 0), (1, 0), (2, 0), (2, 1)]"
    by (cases em) simp_all
  have "search (emptied_scenario True) 0 1 2 1 = Some [(0, 1), (1, 1), (2, 1)]"
       "search (emptied_scenario False) 0 1 2 1 = Some [(0, 1), (1, 1), (2, 1)]"
    by code_simp+
  then have c: "search (emptied_scenario em) 0 1 2 1 = Some [(0, 1), (1, 1), (2, 1)]"
    by (cases em) simp_all
  have "fst (findPath (init_MapSystem 5 1 True) 0 0 4 0 False) = Some [(0, 0), (1, 0), (2, 0), (3, 0), (4, 0)]"
       "fst (findPath (init_MapSystem 5 1 False) 0 0 4 0 False) = Some [(0, 0), (1, 0), (2, 0), (3, 0), (4, 0)]"
    by code_simp+
  then have d: "fst (findPath (init_MapSystem 5 1 em) 0 0 4 0 False)
                  = Some [(0, 0), (1, 0), (2, 0), (3, 0), (4, 0)]"
    by (cases em) simp_all
  show ?thesis using a b c d by blast
qed

end
